theory Spec2Isabelle
  imports Main "HOL-Library.Word"
begin

section \<open>The in-memory message queue \<open>MMQ\<close> of \<open>Bricks/mq/inmemory/mq.h\<close>\<close>

text \<open>
  The queue is a circular buffer of entries, each with a completion status. Producers
  reserve the entry at \<open>head_\<close>, fill it outside the mutex and publish it; one consumer
  thread exports the entries at its local \<open>tail\<close>. The members are modelled under the
  source's names without the trailing underscore. The counter \<open>total_messages_\<close> and
  the \<open>absolute_index\<close> it is copied to are \<open>size_t\<close> values of 64 bits, on which
  \<open>++\<close> wraps around. The indices into the vector are natural numbers: they are only
  compared with its length and incremented modulo its size.
\<close>

subsection \<open>Data\<close>

type_synonym size_t = "64 word"

datatype status = FREE | BEING_IMPORTED | READY | BEING_EXPORTED

record 'm Entry =
  absolute_index :: size_t
  message_body :: 'm
  status :: status

record 'm MMQ =
  circular_buffer_size :: nat
  circular_buffer :: "'m Entry list"
  head :: nat
  total_messages :: size_t
  destructing :: bool

text \<open>
  What a call does: \<open>Undefined\<close> is an access \<open>circular_buffer_[i]\<close> outside the vector or
  a remainder by zero, \<open>Blocked\<close> is a wait on the condition variable that the state does
  not end, \<open>Thrown\<close> is an exception of the message type leaving the call, \<open>Returned\<close> is
  a normal return. The last two carry the queue as the call leaves it.
\<close>

datatype ('r, 'q) outcome = Undefined | Blocked | Thrown 'q | Returned 'r 'q

fun and_then :: "('r, 'q) outcome \<Rightarrow> ('r \<Rightarrow> 'q \<Rightarrow> ('s, 'q) outcome) \<Rightarrow> ('s, 'q) outcome" where
  "and_then Undefined f = Undefined"
| "and_then Blocked f = Blocked"
| "and_then (Thrown q) f = Thrown q"
| "and_then (Returned r q) f = f r q"

subsection \<open>Construction and destruction\<close>

text \<open>
  The constructor (lines 71-76) takes any \<open>buffer_size\<close>: the vector has that many
  value-initialised entries, each \<open>FREE\<close>. \<open>dflt\<close> is the default-constructed message.
\<close>

definition MMQ_ctor :: "'m \<Rightarrow> nat \<Rightarrow> 'm MMQ" where
  "MMQ_ctor dflt buffer_size =
     \<lparr>circular_buffer_size = buffer_size,
      circular_buffer =
        replicate buffer_size \<lparr>absolute_index = 0, message_body = dflt, status = FREE\<rparr>,
      head = 0,
      total_messages = 0,
      destructing = False\<rparr>"

text \<open>The destructor's write under the mutex (lines 80-83).\<close>

definition MMQ_dtor :: "'m MMQ \<Rightarrow> 'm MMQ" where
  "MMQ_dtor q = q\<lparr>destructing := True\<rparr>"

subsection \<open>The private operations\<close>

text \<open>\<open>Increment\<close> (line 138): \<open>i = (i + 1) % circular_buffer_size_\<close>.\<close>

definition Increment :: "'m MMQ \<Rightarrow> nat \<Rightarrow> nat option" where
  "Increment q i =
     (if circular_buffer_size q = 0 then None
      else Some ((i + 1) mod circular_buffer_size q))"

definition set_status :: "nat \<Rightarrow> status \<Rightarrow> 'm MMQ \<Rightarrow> 'm MMQ" where
  "set_status i st q =
     q\<lparr>circular_buffer := (circular_buffer q)[i := (circular_buffer q ! i)\<lparr>status := st\<rparr>]\<rparr>"

text \<open>
  The regular case of \<open>PushMessageAllocate\<close> (lines 196-199 and 223-226):
  \<open>index = head_; Increment(head_); circular_buffer_[index].status = BEING_IMPORTED\<close>.
\<close>

definition reserve_head :: "'m MMQ \<Rightarrow> (nat option, 'm MMQ) outcome" where
  "reserve_head q =
     (let index = head q in
      case Increment q (head q) of
        None \<Rightarrow> Undefined
      | Some h \<Rightarrow> Returned (Some index) (set_status index BEING_IMPORTED (q\<lparr>head := h\<rparr>)))"

text \<open>
  \<open>PushMessageAllocate\<close>, both instances (lines 189-227). The result \<open>None\<close> is the
  source's \<open>static_cast<size_t>(-1)\<close>, which is no index of a vector. With
  \<open>DROP\<close> the flag \<open>destructing_\<close> is not read. Without it the call waits while the
  entry at \<open>head_\<close> is not \<open>FREE\<close> and \<open>destructing_\<close> is not set; woken with
  \<open>destructing_\<close> set it returns \<open>-1\<close>, woken otherwise it reserves the entry.
\<close>

definition PushMessageAllocate :: "bool \<Rightarrow> 'm MMQ \<Rightarrow> (nat option, 'm MMQ) outcome" where
  "PushMessageAllocate DROP q =
     (if DROP then
        (if length (circular_buffer q) \<le> head q then Undefined
         else if status (circular_buffer q ! head q) = FREE then reserve_head q
         else Returned None q)
      else
        (if destructing q then Returned None q
         else if length (circular_buffer q) \<le> head q then Undefined
         else if status (circular_buffer q ! head q) \<noteq> FREE then Blocked
         else reserve_head q))"

text \<open>Line 95: \<open>circular_buffer_[index].absolute_index = total_messages_\<close>.\<close>

definition store_absolute_index :: "nat \<Rightarrow> 'm MMQ \<Rightarrow> (unit, 'm MMQ) outcome" where
  "store_absolute_index index q =
     (if length (circular_buffer q) \<le> index then Undefined
      else Returned ()
        (q\<lparr>circular_buffer :=
             (circular_buffer q)[index :=
                (circular_buffer q ! index)\<lparr>absolute_index := total_messages q\<rparr>]\<rparr>))"

text \<open>
  Line 96: \<open>circular_buffer_[index].message_body = ...\<close>. The right-hand side is the
  message type's copy, move or construction; \<open>None\<close> is that operation throwing.
\<close>

definition store_message_body :: "nat \<Rightarrow> 'm option \<Rightarrow> 'm MMQ \<Rightarrow> (unit, 'm MMQ) outcome" where
  "store_message_body index payload q =
     (if length (circular_buffer q) \<le> index then Undefined
      else case payload of
        None \<Rightarrow> Thrown q
      | Some body \<Rightarrow> Returned ()
          (q\<lparr>circular_buffer :=
               (circular_buffer q)[index :=
                  (circular_buffer q ! index)\<lparr>message_body := body\<rparr>]\<rparr>))"

text \<open>\<open>PushMessageCommit\<close> (lines 229-235).\<close>

definition PushMessageCommit :: "nat \<Rightarrow> 'm MMQ \<Rightarrow> (unit, 'm MMQ) outcome" where
  "PushMessageCommit index q =
     (if length (circular_buffer q) \<le> index then Undefined
      else Returned () (set_status index READY q))"

text \<open>Line 100: \<open>++total_messages_\<close>, which wraps from \<open>2^64 - 1\<close> to 0.\<close>

definition count_message :: "'m MMQ \<Rightarrow> 'm MMQ" where
  "count_message q = q\<lparr>total_messages := total_messages q + 1\<rparr>"

subsection \<open>The public operations\<close>

text \<open>
  The three submissions (lines 91-129), run without another thread in between. The
  message type's operations are parameters: \<open>copy\<close> and \<open>move\<close> are its assignments,
  \<open>ctor\<close> its constructor from the arguments of \<open>EmplaceMessage\<close>, whose temporary is
  then move-assigned.
\<close>

definition PushMessage_copy ::
  "bool \<Rightarrow> ('m \<Rightarrow> 'm option) \<Rightarrow> 'm \<Rightarrow> 'm MMQ \<Rightarrow> (bool, 'm MMQ) outcome" where
  "PushMessage_copy DROP copy message q =
     and_then (PushMessageAllocate DROP q) (\<lambda>index q.
       case index of
         None \<Rightarrow> Returned False (count_message q)
       | Some index \<Rightarrow>
           and_then (store_absolute_index index q) (\<lambda>_ q.
           and_then (store_message_body index (copy message) q) (\<lambda>_ q.
           and_then (PushMessageCommit index q) (\<lambda>_ q.
           Returned True (count_message q)))))"

definition PushMessage_move ::
  "bool \<Rightarrow> ('m \<Rightarrow> 'm option) \<Rightarrow> 'm \<Rightarrow> 'm MMQ \<Rightarrow> (bool, 'm MMQ) outcome" where
  "PushMessage_move DROP move message q =
     and_then (PushMessageAllocate DROP q) (\<lambda>index q.
       case index of
         None \<Rightarrow> Returned False (count_message q)
       | Some index \<Rightarrow>
           and_then (store_absolute_index index q) (\<lambda>_ q.
           and_then (store_message_body index (move message) q) (\<lambda>_ q.
           and_then (PushMessageCommit index q) (\<lambda>_ q.
           Returned True (count_message q)))))"

definition EmplaceMessage ::
  "bool \<Rightarrow> ('a \<Rightarrow> 'm option) \<Rightarrow> ('m \<Rightarrow> 'm option) \<Rightarrow> 'a \<Rightarrow> 'm MMQ \<Rightarrow> (bool, 'm MMQ) outcome" where
  "EmplaceMessage DROP ctor move args q =
     and_then (PushMessageAllocate DROP q) (\<lambda>index q.
       case index of
         None \<Rightarrow> Returned False (count_message q)
       | Some index \<Rightarrow>
           and_then (store_absolute_index index q) (\<lambda>_ q.
           and_then (store_message_body index (Option.bind (ctor args) move) q) (\<lambda>_ q.
           and_then (PushMessageCommit index q) (\<lambda>_ q.
           Returned True (count_message q)))))"

subsection \<open>The consumer thread\<close>

text \<open>
  The first block of the consumer's loop (lines 147-162), under the mutex. \<open>EXIT\<close> is
  one of the two \<open>return\<close> statements, \<open>EXPORT\<close> is falling through to the dispatch
  with the entry at \<open>tail\<close> marked \<open>BEING_EXPORTED\<close>; \<open>Blocked\<close> is the wait.
\<close>

datatype awaited = EXIT | EXPORT

definition await_ready :: "nat \<Rightarrow> 'm MMQ \<Rightarrow> (awaited, 'm MMQ) outcome" where
  "await_ready tail q =
     (if length (circular_buffer q) \<le> tail then Undefined
      else if status (circular_buffer q ! tail) \<noteq> READY then
        (if destructing q then Returned EXIT q else Blocked)
      else if destructing q then Returned EXIT q
      else Returned EXPORT (set_status tail BEING_EXPORTED q))"

text \<open>
  Modelled from the spec: \<open>blocks::ss::DispatchEntryByRValue\<close> (\<open>Blocks/SS/ss.h\<close>) is
  not among the sources. By the spec's section 4.3 the dispatch (lines 164-171) invokes
  the sink with the payload of the entry at \<open>tail\<close>, its \<open>absolute_index\<close> and a snapshot
  of \<open>total_messages_\<close>; the sink is modelled as the list of what it has been invoked
  with. The entry keeps its (moved-from) message.
\<close>

definition dispatch_entry :: "nat \<Rightarrow> 'm MMQ \<Rightarrow> ('m \<times> size_t \<times> size_t) option" where
  "dispatch_entry tail q =
     (if length (circular_buffer q) \<le> tail then None
      else Some (message_body (circular_buffer q ! tail),
                 absolute_index (circular_buffer q ! tail),
                 total_messages q))"

text \<open>
  The last block (lines 173-185): the entry at \<open>tail\<close> becomes \<open>FREE\<close>, then
  \<open>Increment(tail)\<close>. The result is the new \<open>tail\<close>.
\<close>

definition recycle :: "nat \<Rightarrow> 'm MMQ \<Rightarrow> (nat, 'm MMQ) outcome" where
  "recycle tail q =
     (if length (circular_buffer q) \<le> tail then Undefined
      else case Increment q tail of
        None \<Rightarrow> Undefined
      | Some t \<Rightarrow> Returned t (set_status tail FREE q))"

subsection \<open>The three submissions as one operation\<close>

record ('m, 'a) T_MESSAGE =
  copy_assign :: "'m \<Rightarrow> 'm option"
  move_assign :: "'m \<Rightarrow> 'm option"
  construct :: "'a \<Rightarrow> 'm option"

datatype ('m, 'a) submission = ByCopy 'm | ByMove 'm | Emplace 'a

fun submit ::
  "bool \<Rightarrow> ('m, 'a) T_MESSAGE \<Rightarrow> ('m, 'a) submission \<Rightarrow> 'm MMQ \<Rightarrow> (bool, 'm MMQ) outcome" where
  "submit DROP T (ByCopy message) q = PushMessage_copy DROP (copy_assign T) message q"
| "submit DROP T (ByMove message) q = PushMessage_move DROP (move_assign T) message q"
| "submit DROP T (Emplace args) q = EmplaceMessage DROP (construct T) (move_assign T) args q"

text \<open>What line 96 assigns to the entry, \<open>None\<close> when the message type throws.\<close>

fun materialize :: "('m, 'a) T_MESSAGE \<Rightarrow> ('m, 'a) submission \<Rightarrow> 'm option" where
  "materialize T (ByCopy message) = copy_assign T message"
| "materialize T (ByMove message) = move_assign T message"
| "materialize T (Emplace args) = Option.bind (construct T args) (move_assign T)"

subsection \<open>Threads\<close>

text \<open>
  Between two critical sections, and between the statements outside the mutex, another
  thread may run. A producer thread inside a submission is at one of its statements:
  line 92 (\<open>ALLOCATE\<close>), 95 (\<open>STORE_INDEX\<close>), 96 (\<open>STORE_BODY\<close>), 97 (\<open>COMMIT\<close>) or
  100 (\<open>COUNT\<close>, with the result to return); it carries the index it reserved and what
  line 96 will assign. The consumer thread is at one of the three blocks of its loop, or
  has returned.
\<close>

datatype 'm producer =
    IDLE
  | ALLOCATE "'m option"
  | STORE_INDEX nat "'m option"
  | STORE_BODY nat "'m option"
  | COMMIT nat
  | COUNT bool

datatype consumer = AWAIT | DISPATCH | RECYCLE | EXITED

record 'm system =
  queue :: "'m MMQ"
  producers :: "nat \<Rightarrow> 'm producer"
  returned :: "(nat \<times> bool) list"
  consumer :: consumer
  tail :: nat
  sink :: "('m \<times> size_t \<times> size_t) list"

text \<open>The queue as constructed, the consumer thread spawned, no producer in a call.\<close>

definition start :: "'m \<Rightarrow> nat \<Rightarrow> 'm system" where
  "start dflt buffer_size =
     \<lparr>queue = MMQ_ctor dflt buffer_size,
      producers = (\<lambda>_. IDLE),
      returned = [],
      consumer = AWAIT,
      tail = 0,
      sink = []\<rparr>"

text \<open>One statement of a submission: the thread's next statement and the queue.\<close>

fun producer_step :: "bool \<Rightarrow> 'm producer \<Rightarrow> 'm MMQ \<Rightarrow> ('m producer, 'm MMQ) outcome" where
  "producer_step DROP IDLE q = Blocked"
| "producer_step DROP (ALLOCATE payload) q =
     and_then (PushMessageAllocate DROP q) (\<lambda>index q.
       case index of
         None \<Rightarrow> Returned (COUNT False) q
       | Some index \<Rightarrow> Returned (STORE_INDEX index payload) q)"
| "producer_step DROP (STORE_INDEX index payload) q =
     and_then (store_absolute_index index q) (\<lambda>_ q. Returned (STORE_BODY index payload) q)"
| "producer_step DROP (STORE_BODY index payload) q =
     and_then (store_message_body index payload q) (\<lambda>_ q. Returned (COMMIT index) q)"
| "producer_step DROP (COMMIT index) q =
     and_then (PushMessageCommit index q) (\<lambda>_ q. Returned (COUNT True) q)"
| "producer_step DROP (COUNT result) q = Returned IDLE (count_message q)"

text \<open>One block of the consumer's loop.\<close>

definition consumer_step :: "'m system \<Rightarrow> (unit, 'm system) outcome" where
  "consumer_step s =
     (case consumer s of
        AWAIT \<Rightarrow>
          (case await_ready (tail s) (queue s) of
             Undefined \<Rightarrow> Undefined
           | Blocked \<Rightarrow> Blocked
           | Thrown q \<Rightarrow> Thrown (s\<lparr>queue := q\<rparr>)
           | Returned EXIT q \<Rightarrow> Returned () (s\<lparr>queue := q, consumer := EXITED\<rparr>)
           | Returned EXPORT q \<Rightarrow> Returned () (s\<lparr>queue := q, consumer := DISPATCH\<rparr>))
      | DISPATCH \<Rightarrow>
          (case dispatch_entry (tail s) (queue s) of
             None \<Rightarrow> Undefined
           | Some received \<Rightarrow> Returned () (s\<lparr>sink := sink s @ [received], consumer := RECYCLE\<rparr>))
      | RECYCLE \<Rightarrow>
          (case recycle (tail s) (queue s) of
             Undefined \<Rightarrow> Undefined
           | Blocked \<Rightarrow> Blocked
           | Thrown q \<Rightarrow> Thrown (s\<lparr>queue := q\<rparr>)
           | Returned t q \<Rightarrow> Returned () (s\<lparr>queue := q, tail := t, consumer := AWAIT\<rparr>))
      | EXITED \<Rightarrow> Blocked)"

text \<open>
  What the threads can do: a producer thread not in a call enters a submission, a
  producer thread runs its next statement, the consumer runs its next block, the owner
  destroys the queue. \<open>Blocked\<close> is a thread that cannot move in this state. A
  submission that throws leaves the call with the queue as it is; a submission that
  returns is recorded with its result.
\<close>

datatype 'm event = Call nat "'m option" | Producer nat | Consumer | Destroy

definition step :: "bool \<Rightarrow> 'm event \<Rightarrow> 'm system \<Rightarrow> (unit, 'm system) outcome" where
  "step DROP e s =
     (case e of
        Call i payload \<Rightarrow>
          (if producers s i = IDLE
           then Returned () (s\<lparr>producers := (producers s)(i := ALLOCATE payload)\<rparr>)
           else Blocked)
      | Producer i \<Rightarrow>
          (case producer_step DROP (producers s i) (queue s) of
             Undefined \<Rightarrow> Undefined
           | Blocked \<Rightarrow> Blocked
           | Thrown q \<Rightarrow> Thrown (s\<lparr>queue := q, producers := (producers s)(i := IDLE)\<rparr>)
           | Returned p q \<Rightarrow>
               Returned () (s\<lparr>queue := q, producers := (producers s)(i := p),
                               returned := (case producers s i of
                                              COUNT result \<Rightarrow> returned s @ [(i, result)]
                                            | _ \<Rightarrow> returned s)\<rparr>))
      | Consumer \<Rightarrow> consumer_step s
      | Destroy \<Rightarrow> Returned () (s\<lparr>queue := MMQ_dtor (queue s)\<rparr>))"

text \<open>The state after a step that was taken.\<close>

fun after :: "(unit, 's) outcome \<Rightarrow> 's option" where
  "after Undefined = None"
| "after Blocked = None"
| "after (Thrown s) = Some s"
| "after (Returned _ s) = Some s"

fun run :: "bool \<Rightarrow> 'm event list \<Rightarrow> 'm system \<Rightarrow> 'm system option" where
  "run DROP [] s = Some s"
| "run DROP (e # es) s =
     (case after (step DROP e s) of
        None \<Rightarrow> None
      | Some s' \<Rightarrow> run DROP es s')"

text \<open>The four transitions of an entry's status, and which thread makes them.\<close>

fun transition :: "status \<Rightarrow> status \<Rightarrow> bool" where
  "transition FREE BEING_IMPORTED = True"
| "transition BEING_IMPORTED READY = True"
| "transition READY BEING_EXPORTED = True"
| "transition BEING_EXPORTED FREE = True"
| "transition _ _ = False"

definition transition_by :: "'m event \<Rightarrow> status \<Rightarrow> status \<Rightarrow> bool" where
  "transition_by e a b =
     (case e of
        Producer i \<Rightarrow> (a = FREE \<and> b = BEING_IMPORTED) \<or> (a = BEING_IMPORTED \<and> b = READY)
      | Consumer \<Rightarrow> (a = READY \<and> b = BEING_EXPORTED) \<or> (a = BEING_EXPORTED \<and> b = FREE)
      | _ \<Rightarrow> False)"

text \<open>The index a producer thread has reserved and not yet published.\<close>

fun reserved :: "'m producer \<Rightarrow> nat option" where
  "reserved (STORE_INDEX index payload) = Some index"
| "reserved (STORE_BODY index payload) = Some index"
| "reserved (COMMIT index) = Some index"
| "reserved _ = None"

text \<open>
  The queue after an accepted submission of \<open>body\<close> that ran alone: the entry at the
  old \<open>head_\<close> is published with the old \<open>total_messages_\<close> as its index.
\<close>

definition published :: "'m \<Rightarrow> 'm MMQ \<Rightarrow> 'm MMQ" where
  "published body q =
     q\<lparr>head := (head q + 1) mod circular_buffer_size q,
       circular_buffer := (circular_buffer q)[head q :=
          (circular_buffer q ! head q)\<lparr>absolute_index := total_messages q,
                                       message_body := body, status := READY\<rparr>],
       total_messages := total_messages q + 1\<rparr>"

text \<open>
  The queue after a submission whose message could not be built: the entry at the old
  \<open>head_\<close> is reserved and has its index, and nothing else was done.
\<close>

definition abandoned :: "'m MMQ \<Rightarrow> 'm MMQ" where
  "abandoned q =
     q\<lparr>head := (head q + 1) mod circular_buffer_size q,
       circular_buffer := (circular_buffer q)[head q :=
          (circular_buffer q ! head q)\<lparr>status := BEING_IMPORTED,
                                       absolute_index := total_messages q\<rparr>]\<rparr>"

text \<open>A message type whose operations never throw, and one whose constructor does.\<close>

definition plain :: "('m, 'm) T_MESSAGE" where
  "plain = \<lparr>copy_assign = Some, move_assign = Some, construct = Some\<rparr>"

definition throwing :: "('m, 'a) T_MESSAGE" where
  "throwing = \<lparr>copy_assign = Some, move_assign = Some, construct = Map.empty\<rparr>"

text \<open>
  What holds of the threads and the buffer in every state the threads can reach: the
  vector has \<open>circular_buffer_size_\<close> entries, \<open>head_\<close> and \<open>tail\<close> are indices of it,
  an entry a producer has reserved is \<open>BEING_IMPORTED\<close> and reserved by that producer
  only, and the entry the consumer is exporting is \<open>BEING_EXPORTED\<close>.
\<close>

definition consistent :: "'m system \<Rightarrow> bool" where
  "consistent s \<longleftrightarrow>
     length (circular_buffer (queue s)) = circular_buffer_size (queue s)
   \<and> (0 < circular_buffer_size (queue s) \<longrightarrow>
        head (queue s) < circular_buffer_size (queue s)
        \<and> tail s < circular_buffer_size (queue s))
   \<and> (\<forall>i index. reserved (producers s i) = Some index \<longrightarrow>
        index < length (circular_buffer (queue s))
        \<and> status (circular_buffer (queue s) ! index) = BEING_IMPORTED)
   \<and> (\<forall>i j index. reserved (producers s i) = Some index \<longrightarrow>
        reserved (producers s j) = Some index \<longrightarrow> i = j)
   \<and> (consumer s = DISPATCH \<or> consumer s = RECYCLE \<longrightarrow>
        tail s < length (circular_buffer (queue s))
        \<and> status (circular_buffer (queue s) ! tail s) = BEING_EXPORTED)"

subsection \<open>One producer thread\<close>

text \<open>
  The rest of the definitions describe the runs in which one thread submits, its
  submissions one after the other, and the message type does not throw; the consumer and
  the destructor run in between as they like.
\<close>

fun single_producer :: "'m event \<Rightarrow> bool" where
  "single_producer (Call i payload) = (i = 0 \<and> payload \<noteq> None)"
| "single_producer (Producer i) = (i = 0)"
| "single_producer Consumer = True"
| "single_producer Destroy = True"

text \<open>
  The numbers of the \<open>True\<close> entries of a list of results, counted from \<open>k\<close>: with the
  results of the submissions in the order of the calls, the calls that were accepted.
\<close>

fun positions :: "nat \<Rightarrow> bool list \<Rightarrow> nat list" where
  "positions k [] = []"
| "positions k (b # bs) = (if b then k # positions (Suc k) bs else positions (Suc k) bs)"

text \<open>
  Where the producer thread is: in a call that has reserved an entry (and so will return
  \<open>true\<close>), before line 95 has stored the index, and with a message that can be built.
\<close>

fun accepting :: "'m producer \<Rightarrow> bool" where
  "accepting (STORE_INDEX index payload) = True"
| "accepting (STORE_BODY index payload) = True"
| "accepting (COMMIT index) = True"
| "accepting (COUNT result) = result"
| "accepting _ = False"

fun unstored :: "'m producer \<Rightarrow> bool" where
  "unstored (STORE_INDEX index payload) = True"
| "unstored _ = False"

fun willing :: "'m producer \<Rightarrow> bool" where
  "willing (ALLOCATE payload) = (payload \<noteq> None)"
| "willing (STORE_INDEX index payload) = (payload \<noteq> None)"
| "willing (STORE_BODY index payload) = (payload \<noteq> None)"
| "willing _ = True"

text \<open>
  The results of the calls so far, the call in progress included once it has reserved
  its entry; the calls among them that are accepted, which are the indices line 95
  assigns, in the order of the reservations; the number of entries the consumer has
  recycled; the indices the sink has received.
\<close>

definition verdicts :: "'m system \<Rightarrow> bool list" where
  "verdicts s = map snd (returned s) @ (if accepting (producers s 0) then [True] else [])"

definition assigned :: "'m system \<Rightarrow> size_t list" where
  "assigned s = map of_nat (positions 0 (verdicts s))"

definition taken :: "'m system \<Rightarrow> nat" where
  "taken s = length (sink s) - (if consumer s = RECYCLE then 1 else 0)"

definition dispatched :: "'m system \<Rightarrow> size_t list" where
  "dispatched s = map (\<lambda>received. fst (snd received)) (sink s)"

text \<open>
  The buffer as a window of reservations: the entries reserved and not yet recycled are
  the reservations \<open>t, ..., length A - 1\<close>, reservation \<open>k\<close> in entry \<open>k mod n\<close> with
  index \<open>A ! k\<close>. They are \<open>READY\<close>, but for the last one while the producer fills it
  and the first one while the consumer exports it; the other entries are \<open>FREE\<close>.
\<close>

definition ring ::
  "nat \<Rightarrow> 'm Entry list \<Rightarrow> size_t list \<Rightarrow> bool \<Rightarrow> bool \<Rightarrow> bool \<Rightarrow> bool" where
  "ring t buf A filling unindexed exporting \<longleftrightarrow>
     0 < length buf \<and> t \<le> length A \<and> length A \<le> t + length buf
   \<and> (\<forall>k. t \<le> k \<and> k < length A \<longrightarrow>
         status (buf ! (k mod length buf)) =
           (if filling \<and> Suc k = length A then BEING_IMPORTED
            else if exporting \<and> k = t then BEING_EXPORTED
            else READY))
   \<and> (\<forall>k. t \<le> k \<and> k < length A \<and> \<not> (unindexed \<and> Suc k = length A) \<longrightarrow>
         absolute_index (buf ! (k mod length buf)) = A ! k)
   \<and> (\<forall>k. length A \<le> k \<and> k < t + length buf \<longrightarrow>
         status (buf ! (k mod length buf)) = FREE)
   \<and> (filling \<longrightarrow> t < length A)
   \<and> (exporting \<longrightarrow> t < length A \<and> \<not> (filling \<and> Suc t = length A))
   \<and> (unindexed \<longrightarrow> filling)"

text \<open>What holds in every state of a run of one producer thread.\<close>

definition fifo :: "'m system \<Rightarrow> bool" where
  "fifo s \<longleftrightarrow>
     ring (taken s) (circular_buffer (queue s)) (assigned s)
       (reserved (producers s 0) \<noteq> None) (unstored (producers s 0))
       (consumer s = DISPATCH \<or> consumer s = RECYCLE)
   \<and> length (circular_buffer (queue s)) = circular_buffer_size (queue s)
   \<and> head (queue s) = length (assigned s) mod circular_buffer_size (queue s)
   \<and> tail s = taken s mod circular_buffer_size (queue s)
   \<and> total_messages (queue s) = of_nat (length (returned s))
   \<and> (\<forall>i. reserved (producers s 0) = Some i \<longrightarrow>
         i = (length (assigned s) - 1) mod circular_buffer_size (queue s))
   \<and> dispatched s = take (length (sink s)) (assigned s)
   \<and> (consumer s = RECYCLE \<longrightarrow> sink s \<noteq> [])
   \<and> willing (producers s 0)"

text \<open>
  Under the blocking policy a submission is rejected only once \<open>destructing_\<close> is set,
  and none is accepted after that: the results are some \<open>true\<close>, then some \<open>false\<close>.
\<close>

definition rejected :: "'m system \<Rightarrow> bool" where
  "rejected s \<longleftrightarrow> False \<in> set (map snd (returned s)) \<or> producers s 0 = COUNT False"

definition orderly :: "'m system \<Rightarrow> bool" where
  "orderly s \<longleftrightarrow>
     (rejected s \<longrightarrow> destructing (queue s) \<and> \<not> accepting (producers s 0))
   \<and> (\<exists>a b. map snd (returned s) = replicate a True @ replicate b False)"

section \<open>Submissions that run alone\<close>

lemma PushMessageAllocate_Returned:
  assumes "PushMessageAllocate DROP q = Returned r q1"
  shows "(r = None \<and> q1 = q \<and>
            (if DROP then head q < length (circular_buffer q) \<and>
                          status (circular_buffer q ! head q) \<noteq> FREE
             else destructing q))
       \<or> (r = Some (head q) \<and> head q < length (circular_buffer q)
          \<and> status (circular_buffer q ! head q) = FREE
          \<and> circular_buffer_size q \<noteq> 0
          \<and> (DROP \<or> \<not> destructing q)
          \<and> q1 = set_status (head q) BEING_IMPORTED
                   (q\<lparr>head := (head q + 1) mod circular_buffer_size q\<rparr>))"
  using assms
  by (auto simp: PushMessageAllocate_def reserve_head_def Increment_def Let_def split: if_splits)

lemma submit_unfold:
  "submit DROP T sub q =
     and_then (PushMessageAllocate DROP q) (\<lambda>index q.
       case index of
         None \<Rightarrow> Returned False (count_message q)
       | Some index \<Rightarrow>
           and_then (store_absolute_index index q) (\<lambda>_ q.
           and_then (store_message_body index (materialize T sub) q) (\<lambda>_ q.
           and_then (PushMessageCommit index q) (\<lambda>_ q.
           Returned True (count_message q)))))"
  by (cases sub)
    (simp_all add: PushMessage_copy_def PushMessage_move_def EmplaceMessage_def
      cong: option.case_cong)

lemma submit_accepted:
  assumes "PushMessageAllocate DROP q = Returned (Some i) q1" and "materialize T sub = Some body"
  shows "submit DROP T sub q = Returned True (published body q)"
  using PushMessageAllocate_Returned[OF assms(1)] assms
  by (auto simp: submit_unfold store_absolute_index_def store_message_body_def
      PushMessageCommit_def set_status_def count_message_def published_def)

lemma submit_rejected:
  assumes "PushMessageAllocate DROP q = Returned None q1"
  shows "submit DROP T sub q = Returned False (count_message q)"
  using PushMessageAllocate_Returned[OF assms(1)] assms
  by (auto simp: submit_unfold)

lemma submit_thrown:
  assumes "PushMessageAllocate DROP q = Returned (Some i) q1" and "materialize T sub = None"
  shows "submit DROP T sub q = Thrown (abandoned q)"
  using PushMessageAllocate_Returned[OF assms(1)] assms
  by (auto simp: submit_unfold store_absolute_index_def store_message_body_def
      PushMessageCommit_def set_status_def count_message_def abandoned_def)

lemma submit_Returned:
  assumes "submit DROP T sub q = Returned r q'"
  shows "(\<not> r \<and> q' = count_message q \<and> PushMessageAllocate DROP q = Returned None q)
       \<or> (\<exists>body. r \<and> materialize T sub = Some body \<and> q' = published body q
            \<and> head q < length (circular_buffer q) \<and> circular_buffer_size q \<noteq> 0
            \<and> status (circular_buffer q ! head q) = FREE \<and> (DROP \<or> \<not> destructing q))"
proof (cases "PushMessageAllocate DROP q")
  case (Returned idx q1)
  note al = PushMessageAllocate_Returned[OF Returned]
  show ?thesis
  proof (cases idx)
    case None
    with Returned al assms submit_rejected[of DROP q q1 T sub] show ?thesis by auto
  next
    case (Some i)
    show ?thesis
    proof (cases "materialize T sub")
      case None
      with Some Returned assms submit_thrown[of DROP q i q1 T sub] show ?thesis by simp
    next
      case (Some body)
      with \<open>idx = Some i\<close> Returned assms al submit_accepted[of DROP q i q1 T sub body]
      show ?thesis by auto
    qed
  qed
qed (use assms in \<open>simp_all add: submit_unfold\<close>)

lemma PushMessageAllocate_fresh:
  "0 < n \<Longrightarrow> PushMessageAllocate DROP (MMQ_ctor dflt n) =
     Returned (Some 0) (set_status 0 BEING_IMPORTED ((MMQ_ctor dflt n)\<lparr>head := 1 mod n\<rparr>))"
  by (simp add: PushMessageAllocate_def MMQ_ctor_def reserve_head_def Increment_def)

lemma submit_after_shutdown_block:
  "destructing q \<Longrightarrow> submit False T sub q = Returned False (count_message q)"
  by (rule submit_rejected[of False q q]) (simp add: PushMessageAllocate_def)

lemma store_index_step:
  assumes "producer_step DROP (STORE_INDEX index payload) q = Returned p q1"
  shows "absolute_index (circular_buffer q1 ! index) = total_messages q \<and> total_messages q1 = total_messages q"
proof -
  from assms have r: "index < length (circular_buffer q)"
    and q1: "q1 = q\<lparr>circular_buffer := (circular_buffer q)[index :=
                (circular_buffer q ! index)\<lparr>absolute_index := total_messages q\<rparr>]\<rparr>"
    by (simp_all add: store_absolute_index_def split: if_splits)
  show ?thesis by (simp add: q1 r)
qed

lemma accepted_index:
  assumes a: "submit DROP T sub q = Returned True q'"
  shows "absolute_index (circular_buffer q' ! head q) = total_messages q"
proof -
  from submit_Returned[OF a] obtain body where q': "q' = published body q"
    and r: "head q < length (circular_buffer q)" by blast
  show ?thesis by (simp add: q' published_def r)
qed

lemma fresh_accepts:
  assumes "0 < n" "materialize T sub = Some body"
  shows "submit DROP T sub (MMQ_ctor dflt n) = Returned True (published body (MMQ_ctor dflt n))"
  by (rule submit_accepted[OF PushMessageAllocate_fresh[OF assms(1)] assms(2)])

lemma fresh_index:
  "0 < n \<Longrightarrow> absolute_index (circular_buffer (published body (MMQ_ctor dflt n)) ! 0) = 0"
  by (simp add: published_def MMQ_ctor_def)


lemma await_ready_eq:
  assumes "t < length (circular_buffer q)"
  shows "await_ready t q =
     (if destructing q then Returned EXIT q
      else if status (circular_buffer q ! t) = READY
        then Returned EXPORT (set_status t BEING_EXPORTED q)
      else Blocked)"
  using assms by (simp add: await_ready_def)

section \<open>What every reachable state of the threads satisfies\<close>

lemma consistent_start: "consistent (start dflt n)"
  by (simp add: consistent_def start_def MMQ_ctor_def)

lemma producer_step_cases:
  assumes "producer_step DROP p q = Returned p' q'"
  shows "(\<exists>pl. p = ALLOCATE pl \<and> p' = COUNT False \<and> q' = q)
       \<or> (\<exists>pl. p = ALLOCATE pl \<and> p' = STORE_INDEX (head q) pl
            \<and> head q < length (circular_buffer q)
            \<and> status (circular_buffer q ! head q) = FREE
            \<and> circular_buffer_size q \<noteq> 0
            \<and> q' = set_status (head q) BEING_IMPORTED
                   (q\<lparr>head := (head q + 1) mod circular_buffer_size q\<rparr>))
       \<or> (\<exists>index pl. p = STORE_INDEX index pl \<and> p' = STORE_BODY index pl
            \<and> index < length (circular_buffer q)
            \<and> q' = q\<lparr>circular_buffer := (circular_buffer q)[index :=
                (circular_buffer q ! index)\<lparr>absolute_index := total_messages q\<rparr>]\<rparr>)
       \<or> (\<exists>index body. p = STORE_BODY index (Some body) \<and> p' = COMMIT index
            \<and> index < length (circular_buffer q)
            \<and> q' = q\<lparr>circular_buffer := (circular_buffer q)[index :=
                (circular_buffer q ! index)\<lparr>message_body := body\<rparr>]\<rparr>)
       \<or> (\<exists>index. p = COMMIT index \<and> p' = COUNT True
            \<and> index < length (circular_buffer q)
            \<and> q' = set_status index READY q)
       \<or> (\<exists>r. p = COUNT r \<and> p' = IDLE \<and> q' = count_message q)"
proof (cases p)
  case (ALLOCATE pl)
  with assms show ?thesis
    by (cases "PushMessageAllocate DROP q")
      (auto dest!: PushMessageAllocate_Returned split: option.splits)
next
  case (STORE_INDEX index pl)
  with assms show ?thesis by (simp add: store_absolute_index_def split: if_splits)
next
  case (STORE_BODY index pl)
  with assms show ?thesis
    by (simp add: store_message_body_def split: if_splits option.splits)
next
  case (COMMIT index)
  with assms show ?thesis by (simp add: PushMessageCommit_def split: if_splits)
qed (use assms in simp_all)

lemma PushMessageAllocate_not_Thrown: "PushMessageAllocate DROP q \<noteq> Thrown q'"
  by (simp add: PushMessageAllocate_def reserve_head_def Let_def split: option.splits)

lemma producer_step_Thrown:
  assumes "producer_step DROP p q = Thrown q'"
  shows "q' = q \<and> (\<exists>index. p = STORE_BODY index None)"
proof (cases p)
  case (ALLOCATE pl)
  with assms show ?thesis
    by (cases "PushMessageAllocate DROP q")
      (auto simp: PushMessageAllocate_not_Thrown split: option.splits)
next
  case (STORE_INDEX index pl)
  with assms show ?thesis by (simp add: store_absolute_index_def split: if_splits)
next
  case (STORE_BODY index pl)
  with assms show ?thesis
    by (simp add: store_message_body_def split: if_splits option.splits)
next
  case (COMMIT index)
  with assms show ?thesis by (simp add: PushMessageCommit_def split: if_splits)
qed (use assms in simp_all)


lemma step_Producer_after:
  assumes "after (step DROP (Producer i) s) = Some s'"
  shows "(producer_step DROP (producers s i) (queue s) = Thrown (queue s')
            \<and> s' = s\<lparr>queue := queue s', producers := (producers s)(i := IDLE)\<rparr>)
       \<or> (\<exists>p'. producer_step DROP (producers s i) (queue s) = Returned p' (queue s')
            \<and> producers s' = (producers s)(i := p')
            \<and> consumer s' = consumer s \<and> tail s' = tail s \<and> sink s' = sink s)"
  using assms
  by (cases "producer_step DROP (producers s i) (queue s)") (auto simp: step_def)

lemma consistent_Thrown:
  assumes "consistent s"
  shows "consistent (s\<lparr>queue := queue s, producers := (producers s)(i := IDLE)\<rparr>)"
  using assms by (auto simp: consistent_def)

lemma consistent_allocate_none:
  assumes "consistent s" and "queue s' = queue s" and "reserved p' = None"
    and "producers s' = (producers s)(i := p')"
    and "consumer s' = consumer s" and "tail s' = tail s"
  shows "consistent s'"
  using assms by (auto simp: consistent_def)

lemma set_status_simps [simp]:
  "length (circular_buffer (set_status j st q)) = length (circular_buffer q)"
  "circular_buffer_size (set_status j st q) = circular_buffer_size q"
  "head (set_status j st q) = head q"
  "total_messages (set_status j st q) = total_messages q"
  "destructing (set_status j st q) = destructing q"
  by (simp_all add: set_status_def)

lemma status_set_status:
  "i < length (circular_buffer q) \<Longrightarrow>
   status (circular_buffer (set_status j st q) ! i) =
     (if i = j then st else status (circular_buffer q ! i))"
  by (simp add: set_status_def nth_list_update)

lemma consistent_reserve:
  assumes c: "consistent s"
    and h: "head (queue s) < length (circular_buffer (queue s))"
    and f: "status (circular_buffer (queue s) ! head (queue s)) = FREE"
    and n: "circular_buffer_size (queue s) \<noteq> 0"
    and q: "queue s' = set_status (head (queue s)) BEING_IMPORTED
                   ((queue s)\<lparr>head := (head (queue s) + 1) mod circular_buffer_size (queue s)\<rparr>)"
    and p: "producers s' = (producers s)(i := STORE_INDEX (head (queue s)) pl)"
    and o: "consumer s' = consumer s" "tail s' = tail s"
  shows "consistent s'"
  unfolding consistent_def
proof (intro conjI allI impI)
  show "length (circular_buffer (queue s')) = circular_buffer_size (queue s')"
    using c by (simp add: q consistent_def)
  show "head (queue s') < circular_buffer_size (queue s')"
    using n by (simp add: q)
  show "tail s' < circular_buffer_size (queue s')"
    using c n by (simp add: q o consistent_def)
next
  fix j index assume r: "reserved (producers s' j) = Some index"
  then have i: "index < length (circular_buffer (queue s))"
    using c h by (auto simp: p consistent_def split: if_splits)
  then show "index < length (circular_buffer (queue s'))"
    by (simp add: q)
  show "status (circular_buffer (queue s') ! index) = BEING_IMPORTED"
    using c r i by (auto simp: p q status_set_status consistent_def split: if_splits)
next
  fix j k index
  assume "reserved (producers s' j) = Some index" "reserved (producers s' k) = Some index"
  then show "j = k"
    using c f by (auto simp: p consistent_def split: if_splits)
next
  assume "consumer s' = DISPATCH \<or> consumer s' = RECYCLE"
  then have t: "tail s < length (circular_buffer (queue s))"
    "status (circular_buffer (queue s) ! tail s) = BEING_EXPORTED"
    using c by (auto simp: o consistent_def)
  show "tail s' < length (circular_buffer (queue s'))"
    using t by (simp add: q o)
  from t f have "tail s \<noteq> head (queue s)" by auto
  then show "status (circular_buffer (queue s') ! tail s') = BEING_EXPORTED"
    using t by (simp add: q o status_set_status)
qed


lemma consistent_length:
  "consistent s \<Longrightarrow> length (circular_buffer (queue s)) = circular_buffer_size (queue s)"
  by (simp add: consistent_def)

lemma consistent_bounds:
  "consistent s \<Longrightarrow> 0 < circular_buffer_size (queue s) \<Longrightarrow>
   head (queue s) < circular_buffer_size (queue s) \<and> tail s < circular_buffer_size (queue s)"
  by (simp add: consistent_def)

lemma consistent_reserved:
  "consistent s \<Longrightarrow> reserved (producers s i) = Some k \<Longrightarrow>
   k < length (circular_buffer (queue s))
   \<and> status (circular_buffer (queue s) ! k) = BEING_IMPORTED"
  unfolding consistent_def by blast

lemma consistent_distinct:
  "consistent s \<Longrightarrow> reserved (producers s i) = Some k \<Longrightarrow>
   reserved (producers s j) = Some k \<Longrightarrow> i = j"
  unfolding consistent_def by blast

lemma consistent_exporting:
  "consistent s \<Longrightarrow> consumer s = DISPATCH \<or> consumer s = RECYCLE \<Longrightarrow>
   tail s < length (circular_buffer (queue s))
   \<and> status (circular_buffer (queue s) ! tail s) = BEING_EXPORTED"
  unfolding consistent_def by blast

lemma consistent_frame:
  assumes c: "consistent s"
    and l: "length (circular_buffer (queue s')) = length (circular_buffer (queue s))"
    and n: "circular_buffer_size (queue s') = circular_buffer_size (queue s)"
    and h: "head (queue s') = head (queue s)"
    and st: "\<And>k. k < length (circular_buffer (queue s)) \<Longrightarrow>
               status (circular_buffer (queue s') ! k) = status (circular_buffer (queue s) ! k)"
    and r: "\<And>j. reserved (producers s' j) = reserved (producers s j)
               \<or> reserved (producers s' j) = None"
    and o: "consumer s' = DISPATCH \<or> consumer s' = RECYCLE \<Longrightarrow>
              consumer s = DISPATCH \<or> consumer s = RECYCLE"
    and t: "tail s' = tail s"
  shows "consistent s'"
  unfolding consistent_def
proof (intro conjI allI impI)
  show "length (circular_buffer (queue s')) = circular_buffer_size (queue s')"
    using c by (simp add: l n consistent_def)
  assume "0 < circular_buffer_size (queue s')"
  then show "head (queue s') < circular_buffer_size (queue s')"
    and "tail s' < circular_buffer_size (queue s')"
    using c by (simp_all add: n h t consistent_def)
next
  fix j index assume a: "reserved (producers s' j) = Some index"
  with r[of j] have "reserved (producers s j) = Some index" by auto
  with c have i: "index < length (circular_buffer (queue s))"
    and b: "status (circular_buffer (queue s) ! index) = BEING_IMPORTED"
    by (auto dest: consistent_reserved)
  show "index < length (circular_buffer (queue s'))" using i by (simp add: l)
  show "status (circular_buffer (queue s') ! index) = BEING_IMPORTED"
    using st[OF i] b by simp
next
  fix j k index
  assume "reserved (producers s' j) = Some index" "reserved (producers s' k) = Some index"
  with r[of j] r[of k]
  have "reserved (producers s j) = Some index" "reserved (producers s k) = Some index"
    by auto
  with c show "j = k" by (rule consistent_distinct)
next
  assume "consumer s' = DISPATCH \<or> consumer s' = RECYCLE"
  from consistent_exporting[OF c o[OF this]]
  have i: "tail s < length (circular_buffer (queue s))"
    and b: "status (circular_buffer (queue s) ! tail s) = BEING_EXPORTED"
    by blast+
  show "tail s' < length (circular_buffer (queue s'))" using i by (simp add: l t)
  show "status (circular_buffer (queue s') ! tail s') = BEING_EXPORTED"
    using st[OF i] b by (simp add: t)
qed

lemma consistent_commit:
  assumes c: "consistent s"
    and i: "producers s i = COMMIT index"
    and q: "queue s' = set_status index READY (queue s)"
    and p: "producers s' = (producers s)(i := COUNT True)"
    and o: "consumer s' = consumer s" "tail s' = tail s"
  shows "consistent s'"
  unfolding consistent_def
proof (intro conjI allI impI)
  from consistent_reserved[OF c, of i index] i
  have ix: "index < length (circular_buffer (queue s))"
    and ib: "status (circular_buffer (queue s) ! index) = BEING_IMPORTED"
    by simp_all
  show "length (circular_buffer (queue s')) = circular_buffer_size (queue s')"
    using c by (simp add: q consistent_def)
  {
    assume "0 < circular_buffer_size (queue s')"
    then show "head (queue s') < circular_buffer_size (queue s')"
      and "tail s' < circular_buffer_size (queue s')"
      using c by (simp_all add: q o consistent_def)
  }
  {
    fix j k assume a: "reserved (producers s' j) = Some k"
    then have ji: "j \<noteq> i" and rj: "reserved (producers s j) = Some k"
      by (auto simp: p split: if_splits)
    with c have k: "k < length (circular_buffer (queue s))"
      and b: "status (circular_buffer (queue s) ! k) = BEING_IMPORTED"
      by (auto dest: consistent_reserved)
    from consistent_distinct[OF c rj, of i] i ji have "k \<noteq> index" by auto
    then show "k < length (circular_buffer (queue s'))"
      and "status (circular_buffer (queue s') ! k) = BEING_IMPORTED"
      using k b by (simp_all add: q status_set_status)
  }
  {
    fix j k l
    assume "reserved (producers s' j) = Some l" "reserved (producers s' k) = Some l"
    then have "reserved (producers s j) = Some l" "reserved (producers s k) = Some l"
      by (auto simp: p split: if_splits)
    with c show "j = k" by (rule consistent_distinct)
  }
  {
    assume "consumer s' = DISPATCH \<or> consumer s' = RECYCLE"
    then have "consumer s = DISPATCH \<or> consumer s = RECYCLE" by (simp add: o)
    from consistent_exporting[OF c this]
    have t: "tail s < length (circular_buffer (queue s))"
      and b: "status (circular_buffer (queue s) ! tail s) = BEING_EXPORTED"
      by blast+
    with ib have "tail s \<noteq> index" by auto
    then show "tail s' < length (circular_buffer (queue s'))"
      and "status (circular_buffer (queue s') ! tail s') = BEING_EXPORTED"
      using t b by (simp_all add: q o status_set_status)
  }
qed

lemma consistent_consumer_slot:
  assumes c: "consistent s"
    and t: "tail s < length (circular_buffer (queue s))"
    and b: "status (circular_buffer (queue s) ! tail s) \<noteq> BEING_IMPORTED"
    and q: "queue s' = set_status (tail s) st (queue s)"
    and p: "producers s' = producers s"
    and t': "tail s' < length (circular_buffer (queue s))"
    and o: "consumer s' = DISPATCH \<or> consumer s' = RECYCLE \<Longrightarrow>
              tail s' = tail s \<and> st = BEING_EXPORTED"
  shows "consistent s'"
  unfolding consistent_def
proof (intro conjI allI impI)
  show "length (circular_buffer (queue s')) = circular_buffer_size (queue s')"
    using c by (simp add: q consistent_def)
  {
    assume "0 < circular_buffer_size (queue s')"
    then show "head (queue s') < circular_buffer_size (queue s')"
      and "tail s' < circular_buffer_size (queue s')"
      using c t' by (simp_all add: q consistent_def)
  }
  {
    fix j k assume a: "reserved (producers s' j) = Some k"
    then have "reserved (producers s j) = Some k" by (simp add: p)
    from consistent_reserved[OF c this]
    have k: "k < length (circular_buffer (queue s))"
      and kb: "status (circular_buffer (queue s) ! k) = BEING_IMPORTED"
      by blast+
    with b have "k \<noteq> tail s" by auto
    then show "k < length (circular_buffer (queue s'))"
      and "status (circular_buffer (queue s') ! k) = BEING_IMPORTED"
      using k kb by (simp_all add: q status_set_status)
  }
  {
    fix j k l
    assume "reserved (producers s' j) = Some l" "reserved (producers s' k) = Some l"
    then have "reserved (producers s j) = Some l" "reserved (producers s k) = Some l"
      by (simp_all add: p)
    with c show "j = k" by (rule consistent_distinct)
  }
  {
    assume "consumer s' = DISPATCH \<or> consumer s' = RECYCLE"
    from o[OF this] t show "tail s' < length (circular_buffer (queue s'))"
      and "status (circular_buffer (queue s') ! tail s') = BEING_EXPORTED"
      by (simp_all add: q status_set_status)
  }
qed


lemma consumer_step_after:
  assumes "after (consumer_step s) = Some s'"
  shows "(consumer s = AWAIT \<and> tail s < length (circular_buffer (queue s))
            \<and> destructing (queue s)
            \<and> s' = s\<lparr>queue := queue s, consumer := EXITED\<rparr>)
       \<or> (consumer s = AWAIT \<and> tail s < length (circular_buffer (queue s))
            \<and> \<not> destructing (queue s)
            \<and> status (circular_buffer (queue s) ! tail s) = READY
            \<and> s' = s\<lparr>queue := set_status (tail s) BEING_EXPORTED (queue s),
                       consumer := DISPATCH\<rparr>)
       \<or> (consumer s = DISPATCH \<and> tail s < length (circular_buffer (queue s))
            \<and> s' = s\<lparr>sink := sink s @
                         [(message_body (circular_buffer (queue s) ! tail s),
                           absolute_index (circular_buffer (queue s) ! tail s),
                           total_messages (queue s))],
                       consumer := RECYCLE\<rparr>)
       \<or> (consumer s = RECYCLE \<and> tail s < length (circular_buffer (queue s))
            \<and> circular_buffer_size (queue s) \<noteq> 0
            \<and> s' = s\<lparr>queue := set_status (tail s) FREE (queue s),
                       tail := (tail s + 1) mod circular_buffer_size (queue s),
                       consumer := AWAIT\<rparr>)"
proof (cases "consumer s")
  case AWAIT
  with assms show ?thesis
    by (auto simp: consumer_step_def await_ready_def split: if_splits)
next
  case DISPATCH
  with assms show ?thesis
    by (auto simp: consumer_step_def dispatch_entry_def split: if_splits)
next
  case RECYCLE
  with assms show ?thesis
    by (auto simp: consumer_step_def recycle_def Increment_def split: if_splits)
next
  case EXITED
  with assms show ?thesis by (simp add: consumer_step_def)
qed

lemma consumer_step_consistent:
  assumes c: "consistent s" and a: "after (consumer_step s) = Some s'"
  shows "consistent s'"
proof -
  from consumer_step_after[OF a]
  consider (exit) "consumer s = AWAIT" "s' = s\<lparr>queue := queue s, consumer := EXITED\<rparr>"
    | (export) "consumer s = AWAIT" "tail s < length (circular_buffer (queue s))"
        "status (circular_buffer (queue s) ! tail s) = READY"
        "s' = s\<lparr>queue := set_status (tail s) BEING_EXPORTED (queue s), consumer := DISPATCH\<rparr>"
    | (dispatch) "consumer s = DISPATCH"
        "\<exists>x. s' = s\<lparr>sink := sink s @ [x], consumer := RECYCLE\<rparr>"
    | (recycle) "consumer s = RECYCLE" "tail s < length (circular_buffer (queue s))"
        "circular_buffer_size (queue s) \<noteq> 0"
        "s' = s\<lparr>queue := set_status (tail s) FREE (queue s),
                 tail := (tail s + 1) mod circular_buffer_size (queue s),
                 consumer := AWAIT\<rparr>"
    by blast
  then show ?thesis
  proof cases
    case exit
    show ?thesis by (rule consistent_frame[OF c]) (simp_all add: exit)
  next
    case export
    show ?thesis
      by (rule consistent_consumer_slot[OF c export(2), of _ BEING_EXPORTED])
        (simp_all add: export)
  next
    case dispatch
    then obtain x where s': "s' = s\<lparr>sink := sink s @ [x], consumer := RECYCLE\<rparr>" by blast
    show ?thesis by (rule consistent_frame[OF c]) (simp_all add: s' dispatch(1))
  next
    case recycle
    from consistent_exporting[OF c] recycle(1)
    have b: "status (circular_buffer (queue s) ! tail s) = BEING_EXPORTED" by simp
    show ?thesis
      by (rule consistent_consumer_slot[OF c recycle(2), of _ FREE])
        (use recycle b consistent_length[OF c] in simp_all)
  qed
qed

lemma producer_step_consistent:
  assumes c: "consistent s" and a: "after (step DROP (Producer i) s) = Some s'"
  shows "consistent s'"
proof -
  from step_Producer_after[OF a]
  consider (thrown) "s' = s\<lparr>queue := queue s', producers := (producers s)(i := IDLE)\<rparr>"
      "producer_step DROP (producers s i) (queue s) = Thrown (queue s')"
    | (returned) p' where "producer_step DROP (producers s i) (queue s) = Returned p' (queue s')"
      "producers s' = (producers s)(i := p')" "consumer s' = consumer s" "tail s' = tail s"
    by blast
  then show ?thesis
  proof cases
    case thrown
    from producer_step_Thrown[OF thrown(2)] have "queue s' = queue s" by simp
    with thrown(1) have "s' = s\<lparr>queue := queue s, producers := (producers s)(i := IDLE)\<rparr>"
      by simp
    then show ?thesis using consistent_Thrown[OF c] by simp
  next
    case returned
    from producer_step_cases[OF returned(1)]
    consider (none) pl where "producers s i = ALLOCATE pl" "p' = COUNT False" "queue s' = queue s"
      | (some) pl where "producers s i = ALLOCATE pl" "p' = STORE_INDEX (head (queue s)) pl"
          "head (queue s) < length (circular_buffer (queue s))"
          "status (circular_buffer (queue s) ! head (queue s)) = FREE"
          "circular_buffer_size (queue s) \<noteq> 0"
          "queue s' = set_status (head (queue s)) BEING_IMPORTED
             ((queue s)\<lparr>head := (head (queue s) + 1) mod circular_buffer_size (queue s)\<rparr>)"
      | (index) index pl where "producers s i = STORE_INDEX index pl" "p' = STORE_BODY index pl"
          "index < length (circular_buffer (queue s))"
          "queue s' = (queue s)\<lparr>circular_buffer := (circular_buffer (queue s))[index :=
             (circular_buffer (queue s) ! index)\<lparr>absolute_index := total_messages (queue s)\<rparr>]\<rparr>"
      | (body) index body where "producers s i = STORE_BODY index (Some body)" "p' = COMMIT index"
          "index < length (circular_buffer (queue s))"
          "queue s' = (queue s)\<lparr>circular_buffer := (circular_buffer (queue s))[index :=
             (circular_buffer (queue s) ! index)\<lparr>message_body := body\<rparr>]\<rparr>"
      | (commit) index where "producers s i = COMMIT index" "p' = COUNT True"
          "queue s' = set_status index READY (queue s)"
      | (count) r where "producers s i = COUNT r" "p' = IDLE" "queue s' = count_message (queue s)"
      by blast
    then show ?thesis
    proof cases
      case none
      show ?thesis
        by (rule consistent_frame[OF c]) (simp_all add: none returned)
    next
      case some
      show ?thesis
        by (rule consistent_reserve[OF c some(3,4,5,6)]) (simp_all add: some returned)
    next
      case index
      show ?thesis
        by (rule consistent_frame[OF c])
          (simp_all add: index returned nth_list_update)
    next
      case body
      show ?thesis
        by (rule consistent_frame[OF c])
          (simp_all add: body returned nth_list_update)
    next
      case commit
      show ?thesis
        by (rule consistent_commit[OF c commit(1,3)]) (simp_all add: commit returned)
    next
      case count
      show ?thesis
        by (rule consistent_frame[OF c]) (simp_all add: count returned count_message_def)
    qed
  qed
qed

lemma step_consistent:
  assumes c: "consistent s" and a: "after (step DROP e s) = Some s'"
  shows "consistent s'"
proof (cases e)
  case (Call i payload)
  with a have s': "s' = s\<lparr>producers := (producers s)(i := ALLOCATE payload)\<rparr>"
    by (simp add: step_def split: if_splits)
  show ?thesis by (rule consistent_frame[OF c]) (simp_all add: s')
next
  case (Producer i)
  with a show ?thesis using producer_step_consistent[OF c] by simp
next
  case Consumer
  with a show ?thesis using consumer_step_consistent[OF c] by (simp add: step_def)
next
  case Destroy
  with a have s': "s' = s\<lparr>queue := MMQ_dtor (queue s)\<rparr>"
    by (simp add: step_def)
  show ?thesis by (rule consistent_frame[OF c]) (simp_all add: s' MMQ_dtor_def)
qed

lemma run_consistent:
  "consistent s \<Longrightarrow> run DROP es s = Some s' \<Longrightarrow> consistent s'"
proof (induction es arbitrary: s)
  case Nil
  then show ?case by simp
next
  case (Cons e es)
  from Cons.prems(2) obtain s1 where s1: "after (step DROP e s) = Some s1"
    and r: "run DROP es s1 = Some s'"
    by (auto split: option.splits)
  from step_consistent[OF Cons.prems(1) s1] have "consistent s1" .
  from Cons.IH[OF this r] show ?case .
qed


lemma step_Producer_queue:
  assumes a: "after (step DROP (Producer i) s) = Some s'"
  shows "queue s' = queue s
       \<or> (\<exists>pl. producers s i = ALLOCATE pl
            \<and> status (circular_buffer (queue s) ! head (queue s)) = FREE
            \<and> queue s' = set_status (head (queue s)) BEING_IMPORTED
                 ((queue s)\<lparr>head := (head (queue s) + 1) mod circular_buffer_size (queue s)\<rparr>))
       \<or> (\<exists>index pl. producers s i = STORE_INDEX index pl
            \<and> queue s' = (queue s)\<lparr>circular_buffer := (circular_buffer (queue s))[index :=
             (circular_buffer (queue s) ! index)\<lparr>absolute_index := total_messages (queue s)\<rparr>]\<rparr>)
       \<or> (\<exists>index body. producers s i = STORE_BODY index (Some body)
            \<and> queue s' = (queue s)\<lparr>circular_buffer := (circular_buffer (queue s))[index :=
             (circular_buffer (queue s) ! index)\<lparr>message_body := body\<rparr>]\<rparr>)
       \<or> (\<exists>index. producers s i = COMMIT index
            \<and> queue s' = set_status index READY (queue s))
       \<or> (\<exists>r. producers s i = COUNT r \<and> queue s' = count_message (queue s))"
proof -
  from step_Producer_after[OF a]
  consider (thrown) "producer_step DROP (producers s i) (queue s) = Thrown (queue s')"
    | (returned) p' where "producer_step DROP (producers s i) (queue s) = Returned p' (queue s')"
    by blast
  then show ?thesis
  proof cases
    case thrown
    from producer_step_Thrown[OF this] show ?thesis by simp
  next
    case returned
    from producer_step_cases[OF this] show ?thesis by blast
  qed
qed

lemma step_queue_shape:
  assumes a: "after (step DROP e s) = Some s'"
  shows "circular_buffer_size (queue s') = circular_buffer_size (queue s)
       \<and> length (circular_buffer (queue s')) = length (circular_buffer (queue s))"
proof (cases e)
  case (Call i payload)
  with a show ?thesis by (auto simp: step_def split: if_splits)
next
  case (Producer i)
  with a have "after (step DROP (Producer i) s) = Some s'" by simp
  from step_Producer_queue[OF this] show ?thesis
    by (auto simp: count_message_def)
next
  case Consumer
  with a have "after (consumer_step s) = Some s'" by (simp add: step_def)
  from consumer_step_after[OF this] show ?thesis by auto
next
  case Destroy
  with a show ?thesis by (auto simp: step_def MMQ_dtor_def)
qed

lemma run_queue_shape:
  "run DROP es s = Some s' \<Longrightarrow>
   circular_buffer_size (queue s') = circular_buffer_size (queue s)
   \<and> length (circular_buffer (queue s')) = length (circular_buffer (queue s))"
proof (induction es arbitrary: s)
  case Nil
  then show ?case by simp
next
  case (Cons e es)
  from Cons.prems obtain s1 where s1: "after (step DROP e s) = Some s1"
    and r: "run DROP es s1 = Some s'"
    by (auto split: option.splits)
  from step_queue_shape[OF s1] Cons.IH[OF r] show ?case by simp
qed

lemma status_store_absolute_index [simp]:
  "status (xs[i := (xs ! i)\<lparr>absolute_index := a\<rparr>] ! j) = status (xs ! j)"
  by (cases "i = j"; cases "i < length xs") (simp_all add: list_update_beyond not_less)

lemma status_store_message_body [simp]:
  "status (xs[i := (xs ! i)\<lparr>message_body := b\<rparr>] ! j) = status (xs ! j)"
  by (cases "i = j"; cases "i < length xs") (simp_all add: list_update_beyond not_less)

lemma step_Producer_statuses:
  assumes a: "after (step DROP (Producer i) s) = Some s'"
  shows "(\<forall>j. status (circular_buffer (queue s') ! j) = status (circular_buffer (queue s) ! j))
       \<or> (status (circular_buffer (queue s) ! head (queue s)) = FREE
            \<and> queue s' = set_status (head (queue s)) BEING_IMPORTED
                 ((queue s)\<lparr>head := (head (queue s) + 1) mod circular_buffer_size (queue s)\<rparr>))
       \<or> (\<exists>index. producers s i = COMMIT index
            \<and> queue s' = set_status index READY (queue s))"
  using step_Producer_queue[OF a]
  by (elim disjE exE conjE) (simp_all add: count_message_def)

lemma step_transition:
  assumes c: "consistent s" and a: "after (step DROP e s) = Some s'"
    and k: "k < length (circular_buffer (queue s))"
    and d: "status (circular_buffer (queue s') ! k) \<noteq> status (circular_buffer (queue s) ! k)"
  shows "transition_by e (status (circular_buffer (queue s) ! k))
           (status (circular_buffer (queue s') ! k))"
proof (cases e)
  case (Call i payload)
  with a d show ?thesis by (auto simp: step_def split: if_splits)
next
  case Destroy
  with a d show ?thesis by (auto simp: step_def MMQ_dtor_def)
next
  case (Producer i)
  with a have a': "after (step DROP (Producer i) s) = Some s'" by simp
  from step_Producer_statuses[OF a']
  consider (same) "\<forall>j.
        status (circular_buffer (queue s') ! j) = status (circular_buffer (queue s) ! j)"
    | (reserve) "status (circular_buffer (queue s) ! head (queue s)) = FREE"
        "queue s' = set_status (head (queue s)) BEING_IMPORTED
           ((queue s)\<lparr>head := (head (queue s) + 1) mod circular_buffer_size (queue s)\<rparr>)"
    | (commit) index where "producers s i = COMMIT index"
        "queue s' = set_status index READY (queue s)"
    by blast
  then show ?thesis
  proof cases
    case same
    with k d show ?thesis by simp
  next
    case reserve
    with k d show ?thesis
      by (auto simp: Producer transition_by_def status_set_status split: if_splits)
  next
    case commit
    from consistent_reserved[OF c, of i index] commit(1)
    have "status (circular_buffer (queue s) ! index) = BEING_IMPORTED" by simp
    with commit k d show ?thesis
      by (auto simp: Producer transition_by_def status_set_status split: if_splits)
  qed
next
  case Consumer
  with a have a': "after (consumer_step s) = Some s'" by (simp add: step_def)
  from consumer_step_after[OF a']
  consider (same) "queue s' = queue s"
    | (export) "status (circular_buffer (queue s) ! tail s) = READY"
        "queue s' = set_status (tail s) BEING_EXPORTED (queue s)"
    | (recycle) "consumer s = RECYCLE" "queue s' = set_status (tail s) FREE (queue s)"
    by auto
  then show ?thesis
  proof cases
    case same
    with d show ?thesis by simp
  next
    case export
    with k d show ?thesis
      by (auto simp: Consumer transition_by_def status_set_status split: if_splits)
  next
    case recycle
    from consistent_exporting[OF c] recycle(1)
    have "status (circular_buffer (queue s) ! tail s) = BEING_EXPORTED" by simp
    with recycle k d show ?thesis
      by (auto simp: Consumer transition_by_def status_set_status split: if_splits)
  qed
qed

lemma transition_by_transition: "transition_by e a b \<Longrightarrow> transition a b"
  by (auto simp: transition_by_def split: event.splits)

lemma step_defined:
  assumes c: "consistent s" and n: "0 < circular_buffer_size (queue s)"
  shows "step DROP e s \<noteq> Undefined"
proof (cases e)
  case (Call i payload)
  then show ?thesis by (simp add: step_def)
next
  case Destroy
  then show ?thesis by (simp add: step_def)
next
  case (Producer i)
  from consistent_bounds[OF c n] consistent_length[OF c]
  have h: "head (queue s) < length (circular_buffer (queue s))" by simp
  have "producer_step DROP (producers s i) (queue s) \<noteq> Undefined"
  proof (cases "producers s i")
    case (ALLOCATE pl)
    with h n show ?thesis
      by (simp add: PushMessageAllocate_def reserve_head_def Increment_def Let_def)
  next
    case (STORE_INDEX index pl)
    with consistent_reserved[OF c, of i index] show ?thesis
      by (simp add: store_absolute_index_def)
  next
    case (STORE_BODY index pl)
    with consistent_reserved[OF c, of i index] show ?thesis
      by (simp add: store_message_body_def split: option.splits)
  next
    case (COMMIT index)
    with consistent_reserved[OF c, of i index] show ?thesis
      by (simp add: PushMessageCommit_def)
  qed simp_all
  then show ?thesis
    by (cases "producer_step DROP (producers s i) (queue s)") (simp_all add: step_def Producer)
next
  case Consumer
  from consistent_bounds[OF c n] consistent_length[OF c]
  have t: "tail s < length (circular_buffer (queue s))" by simp
  with n show ?thesis
    by (cases "consumer s")
      (simp_all add: step_def Consumer consumer_step_def await_ready_def dispatch_entry_def
        recycle_def Increment_def)
qed

section \<open>Runs of one producer thread\<close>

subsection \<open>Entries of a circular buffer\<close>

lemma mod_window_inj:
  fixes k :: nat
  assumes "a \<le> k" "k < a + n" "a \<le> k'" "k' < a + n" "k mod n = k' mod n"
  shows "k = k'"
proof -
  have aux: "x = y" if "x \<le> y" "a \<le> x" "y < a + n" "x mod n = y mod n" for x y :: nat
  proof -
    from that have "y mod n = x mod n" and "x \<le> y" by simp_all
    then have "n dvd y - x" by (simp add: mod_eq_dvd_iff_nat)
    moreover from that have "y - x < n" by simp
    ultimately have "y - x = 0" using dvd_imp_le[of n "y - x"] by (cases "y - x = 0") auto
    with that show ?thesis by simp
  qed
  show ?thesis
  proof (cases "k \<le> k'")
    case True
    with assms aux[of k k'] show ?thesis by simp
  next
    case False
    with assms aux[of k' k] show ?thesis by simp
  qed
qed

lemma positions_append:
  "positions k (bs @ cs) = positions k bs @ positions (k + length bs) cs"
  by (induction bs arbitrary: k) simp_all

lemma positions_bounds:
  "x \<in> set (positions k bs) \<Longrightarrow> k \<le> x \<and> x < k + length bs"
  by (induction bs arbitrary: k) (fastforce split: if_splits)+

lemma positions_sorted: "sorted_wrt (<) (positions k bs)"
  by (induction bs arbitrary: k) (auto dest: positions_bounds)

lemma positions_nth_ge:
  "j < length (positions k bs) \<Longrightarrow> k + j \<le> positions k bs ! j"
proof (induction bs arbitrary: k j)
  case Nil
  then show ?case by simp
next
  case (Cons b bs)
  show ?case
  proof (cases b)
    case True
    with Cons show ?thesis by (cases j) (auto dest: Cons.IH[of _ "Suc k"])
  next
    case False
    with Cons.prems Cons.IH[of j "Suc k"] show ?thesis by simp
  qed
qed

lemma positions_drops:
  "j < length (positions k bs) \<Longrightarrow>
   positions k bs ! j - k - j = length (filter Not (take (positions k bs ! j - k) bs))"
proof (induction bs arbitrary: k j)
  case Nil
  then show ?case by simp
next
  case (Cons b bs)
  show ?case
  proof (cases b)
    case True
    show ?thesis
    proof (cases j)
      case 0
      with True show ?thesis by simp
    next
      case (Suc i)
      with True Cons.prems have i: "i < length (positions (Suc k) bs)" by simp
      let ?x = "positions (Suc k) bs ! i"
      from positions_nth_ge[OF i] have g: "Suc k + i \<le> ?x" .
      from Cons.IH[OF i]
      have "?x - Suc k - i = length (filter Not (take (?x - Suc k) bs))" .
      moreover from g have "?x - k = Suc (?x - Suc k)" by simp
      then have "take (?x - k) (b # bs) = b # take (?x - Suc k) bs" by simp
      ultimately show ?thesis using True Suc g by simp
    qed
  next
    case False
    with Cons.prems have i: "j < length (positions (Suc k) bs)" by simp
    let ?x = "positions (Suc k) bs ! j"
    from positions_nth_ge[OF i] have g: "Suc k + j \<le> ?x" .
    from Cons.IH[OF i]
    have "?x - Suc k - j = length (filter Not (take (?x - Suc k) bs))" .
    moreover from g have "?x - k = Suc (?x - Suc k)" by simp
    then have "take (?x - k) (b # bs) = b # take (?x - Suc k) bs" by simp
    ultimately show ?thesis using False g by simp
  qed
qed

lemma positions_all_accepted:
  "positions k (replicate a True @ replicate b False) = [k..<k + a]"
proof (induction a arbitrary: k)
  case 0
  show ?case by (induction b arbitrary: k) simp_all
next
  case (Suc a)
  then show ?case by (simp add: upt_rec)
qed

lemma window_slot_eq:
  "t \<le> k \<Longrightarrow> k < t + n \<Longrightarrow> t \<le> k' \<Longrightarrow> k' < t + n \<Longrightarrow>
   k mod n = k' mod n \<longleftrightarrow> k = (k' :: nat)"
  using mod_window_inj[of t k n k'] by auto

lemma ring_status:
  "ring t buf A im un ex \<Longrightarrow> t \<le> k \<Longrightarrow> k < length A \<Longrightarrow>
   status (buf ! (k mod length buf)) =
           (if im \<and> Suc k = length A then BEING_IMPORTED
            else if ex \<and> k = t then BEING_EXPORTED
            else READY)"
  unfolding ring_def by blast

lemma ring_index:
  "ring t buf A im un ex \<Longrightarrow> t \<le> k \<Longrightarrow> k < length A \<Longrightarrow> \<not> (un \<and> Suc k = length A) \<Longrightarrow>
   absolute_index (buf ! (k mod length buf)) = A ! k"
  unfolding ring_def by blast

lemma ring_free:
  "ring t buf A im un ex \<Longrightarrow> length A \<le> k \<Longrightarrow> k < t + length buf \<Longrightarrow>
   status (buf ! (k mod length buf)) = FREE"
  unfolding ring_def by blast

lemma ring_bounds:
  "ring t buf A im un ex \<Longrightarrow> 0 < length buf \<and> t \<le> length A \<and> length A \<le> t + length buf"
  unfolding ring_def by blast

lemma ring_flags:
  "ring t buf A im un ex \<Longrightarrow>
   (im \<longrightarrow> t < length A) \<and> (ex \<longrightarrow> t < length A \<and> \<not> (im \<and> Suc t = length A)) \<and> (un \<longrightarrow> im)"
  unfolding ring_def by blast

lemma ring_head_free:
  assumes r: "ring t buf A False un ex"
    and f: "status (buf ! (length A mod length buf)) = FREE"
  shows "length A < t + length buf"
proof (rule ccontr)
  assume "\<not> length A < t + length buf"
  with ring_bounds[OF r] have h: "length A = t + length buf" and n: "0 < length buf" by simp_all
  then have "t < length A" by simp
  from ring_status[OF r _ this, of ] have "status (buf ! (t mod length buf)) \<noteq> FREE" by simp
  moreover from h have "length A mod length buf = t mod length buf" by simp
  ultimately show False using f by simp
qed

lemma ring_initial: "0 < n \<Longrightarrow> ring 0 (replicate n \<lparr>absolute_index = 0, message_body = d, status = FREE\<rparr>) [] False False False"
  by (simp add: ring_def)


lemma absolute_index_store_message_body [simp]:
  "absolute_index (xs[i := (xs ! i)\<lparr>message_body := b\<rparr>] ! j) = absolute_index (xs ! j)"
  by (cases "i = j"; cases "i < length xs") (simp_all add: list_update_beyond not_less)

lemma absolute_index_set_status [simp]:
  "absolute_index (xs[i := (xs ! i)\<lparr>status := st\<rparr>] ! j) = absolute_index (xs ! j)"
  by (cases "i = j"; cases "i < length xs") (simp_all add: list_update_beyond not_less)

lemma ring_store_body:
  "ring t buf A im un ex \<Longrightarrow> ring t (buf[i := (buf ! i)\<lparr>message_body := b\<rparr>]) A im un ex"
  unfolding ring_def by simp

lemma ring_reserve:
  assumes r: "ring t buf A False False ex"
    and f: "status (buf ! (length A mod length buf)) = FREE"
  shows "ring t (buf[length A mod length buf :=
            (buf ! (length A mod length buf))\<lparr>status := BEING_IMPORTED\<rparr>]) (A @ [x]) True True ex"
proof -
  let ?n = "length buf" and ?h = "length A"
  from ring_bounds[OF r] have n: "0 < ?n" and th: "t \<le> ?h" by simp_all
  from ring_head_free[OF r f] have hn: "?h < t + ?n" .
  have slot: "k mod ?n = ?h mod ?n \<longleftrightarrow> k = ?h" if "t \<le> k" "k < t + ?n" for k
    using window_slot_eq[OF that th hn] .
  have lt: "?h mod ?n < ?n" using n by simp
  show ?thesis
    unfolding ring_def
  proof (intro conjI allI impI)
    fix k assume k: "t \<le> k \<and> k < length (A @ [x])"
    then have "k mod ?n < ?n" using n by simp
    from k hn have kw: "t \<le> k" "k < t + ?n" by simp_all
    show "status (buf[?h mod ?n := (buf ! (?h mod ?n))\<lparr>status := BEING_IMPORTED\<rparr>] !
            (k mod length (buf[?h mod ?n := (buf ! (?h mod ?n))\<lparr>status := BEING_IMPORTED\<rparr>])))
          = (if True \<and> Suc k = length (A @ [x]) then BEING_IMPORTED
             else if ex \<and> k = t then BEING_EXPORTED else READY)"
    proof (cases "k = ?h")
      case True
      then show ?thesis using lt by simp
    next
      case False
      with k have kh: "k < ?h" by simp
      from False slot[OF kw] have "k mod ?n \<noteq> ?h mod ?n" by simp
      then show ?thesis using ring_status[OF r _ kh] k False by simp
    qed
  next
    fix k assume k: "t \<le> k \<and> k < length (A @ [x]) \<and> \<not> (True \<and> Suc k = length (A @ [x]))"
    then have kh: "k < ?h" and tk: "t \<le> k" by simp_all
    with hn have kw: "k < t + ?n" by simp
    from kh slot[OF tk kw] have "k mod ?n \<noteq> ?h mod ?n" by simp
    then show "absolute_index (buf[?h mod ?n := (buf ! (?h mod ?n))\<lparr>status := BEING_IMPORTED\<rparr>] !
            (k mod length (buf[?h mod ?n := (buf ! (?h mod ?n))\<lparr>status := BEING_IMPORTED\<rparr>])))
          = (A @ [x]) ! k"
      using ring_index[OF r tk kh] kh by (simp add: nth_append)
  next
    fix k assume k: "length (A @ [x]) \<le> k \<and>
        k < t + length (buf[?h mod ?n := (buf ! (?h mod ?n))\<lparr>status := BEING_IMPORTED\<rparr>])"
    then have hk: "?h \<le> k" "k < t + ?n" "k \<noteq> ?h" "t \<le> k" using th by simp_all
    from slot[OF hk(4,2)] hk(3) have "k mod ?n \<noteq> ?h mod ?n" by simp
    then show "status (buf[?h mod ?n := (buf ! (?h mod ?n))\<lparr>status := BEING_IMPORTED\<rparr>] !
            (k mod length (buf[?h mod ?n := (buf ! (?h mod ?n))\<lparr>status := BEING_IMPORTED\<rparr>])))
          = FREE"
      using ring_free[OF r hk(1,2)] by simp
  next
    assume ex
    with ring_flags[OF r] show "t < length (A @ [x])" by simp
    from \<open>ex\<close> ring_flags[OF r] show "\<not> (True \<and> Suc t = length (A @ [x]))" by simp
  qed (use n th hn in simp_all)
qed


lemma ring_store_index:
  assumes r: "ring t buf A True True ex"
  shows "ring t (buf[(length A - 1) mod length buf :=
            (buf ! ((length A - 1) mod length buf))\<lparr>absolute_index := A ! (length A - 1)\<rparr>])
           A True False ex"
proof -
  let ?n = "length buf" and ?h = "length A"
  let ?i = "(?h - 1) mod ?n"
  let ?buf = "buf[?i := (buf ! ?i)\<lparr>absolute_index := A ! (?h - 1)\<rparr>]"
  from ring_bounds[OF r] ring_flags[OF r]
  have n: "0 < ?n" and th: "t < ?h" and hn: "?h \<le> t + ?n" by simp_all
  then have l: "t \<le> ?h - 1" "?h - 1 < t + ?n" by simp_all
  have slot: "k mod ?n = ?i \<longleftrightarrow> k = ?h - 1" if "t \<le> k" "k < t + ?n" for k
    using window_slot_eq[OF that l] .
  have lt: "?i < ?n" using n by simp
  show ?thesis
    unfolding ring_def
  proof (intro conjI allI impI)
    fix k assume "t \<le> k \<and> k < ?h"
    then show "status (?buf ! (k mod length ?buf)) =
        (if True \<and> Suc k = ?h then BEING_IMPORTED else if ex \<and> k = t then BEING_EXPORTED else READY)"
      using ring_status[OF r, of k] by simp
  next
    fix k assume k: "t \<le> k \<and> k < ?h \<and> \<not> (False \<and> Suc k = ?h)"
    then have kw: "t \<le> k" "k < t + ?n" using hn by simp_all
    show "absolute_index (?buf ! (k mod length ?buf)) = A ! k"
    proof (cases "k = ?h - 1")
      case True
      then show ?thesis using lt by simp
    next
      case False
      with slot[OF kw] have "k mod ?n \<noteq> ?i" by simp
      moreover from False k have "\<not> (True \<and> Suc k = ?h)" by auto
      ultimately show ?thesis using ring_index[OF r, of k] k by simp
    qed
  next
    fix k assume "?h \<le> k \<and> k < t + length ?buf"
    then show "status (?buf ! (k mod length ?buf)) = FREE"
      using ring_free[OF r, of k] by simp
  qed (use n th hn ring_flags[OF r] in simp_all)
qed

lemma ring_commit:
  assumes r: "ring t buf A True False ex"
  shows "ring t (buf[(length A - 1) mod length buf :=
            (buf ! ((length A - 1) mod length buf))\<lparr>status := READY\<rparr>])
           A False False ex"
proof -
  let ?n = "length buf" and ?h = "length A"
  let ?i = "(?h - 1) mod ?n"
  let ?buf = "buf[?i := (buf ! ?i)\<lparr>status := READY\<rparr>]"
  from ring_bounds[OF r] ring_flags[OF r]
  have n: "0 < ?n" and th: "t < ?h" and hn: "?h \<le> t + ?n" by simp_all
  then have l: "t \<le> ?h - 1" "?h - 1 < t + ?n" by simp_all
  have slot: "k mod ?n = ?i \<longleftrightarrow> k = ?h - 1" if "t \<le> k" "k < t + ?n" for k
    using window_slot_eq[OF that l] .
  have lt: "?i < ?n" using n by simp
  from ring_flags[OF r] have e: "ex \<Longrightarrow> Suc t \<noteq> ?h" by simp
  show ?thesis
    unfolding ring_def
  proof (intro conjI allI impI)
    fix k assume k: "t \<le> k \<and> k < ?h"
    then have kw: "t \<le> k" "k < t + ?n" using hn by simp_all
    show "status (?buf ! (k mod length ?buf)) =
        (if False \<and> Suc k = ?h then BEING_IMPORTED else if ex \<and> k = t then BEING_EXPORTED else READY)"
    proof (cases "k = ?h - 1")
      case True
      with e th show ?thesis using lt by auto
    next
      case False
      with slot[OF kw] have "k mod ?n \<noteq> ?i" by simp
      moreover from False k have "Suc k \<noteq> ?h" by auto
      ultimately show ?thesis using ring_status[OF r, of k] k by simp
    qed
  next
    fix k assume k: "t \<le> k \<and> k < ?h \<and> \<not> (False \<and> Suc k = ?h)"
    then show "absolute_index (?buf ! (k mod length ?buf)) = A ! k"
      using ring_index[OF r, of k] by simp
  next
    fix k assume k: "?h \<le> k \<and> k < t + length ?buf"
    then have kw: "t \<le> k" "k < t + ?n" "k \<noteq> ?h - 1" using th by auto
    from slot[OF kw(1,2)] kw(3) have "k mod ?n \<noteq> ?i" by simp
    then show "status (?buf ! (k mod length ?buf)) = FREE"
      using ring_free[OF r, of k] k by simp
  qed (use n th hn ring_flags[OF r] in simp_all)
qed

lemma ring_tail_ready:
  assumes r: "ring t buf A im un False"
    and f: "status (buf ! (t mod length buf)) = READY"
  shows "t < length A \<and> \<not> (im \<and> Suc t = length A)"
proof -
  from ring_bounds[OF r] have n: "0 < length buf" and th: "t \<le> length A" by simp_all
  have "t \<noteq> length A"
  proof
    assume "t = length A"
    with ring_free[OF r, of t] n f show False by simp
  qed
  with th have l: "t < length A" by simp
  from ring_status[OF r _ l] f show ?thesis using l by (auto split: if_splits)
qed

lemma ring_export:
  assumes r: "ring t buf A im un False"
    and f: "status (buf ! (t mod length buf)) = READY"
  shows "ring t (buf[t mod length buf := (buf ! (t mod length buf))\<lparr>status := BEING_EXPORTED\<rparr>])
           A im un True"
proof -
  let ?n = "length buf" and ?h = "length A"
  let ?i = "t mod ?n"
  let ?buf = "buf[?i := (buf ! ?i)\<lparr>status := BEING_EXPORTED\<rparr>]"
  from ring_bounds[OF r] have n: "0 < ?n" and hn: "?h \<le> t + ?n" by simp_all
  from ring_tail_ready[OF r f] have th: "t < ?h" and ni: "\<not> (im \<and> Suc t = ?h)" by simp_all
  have l: "t \<le> t" "t < t + ?n" using n by simp_all
  have slot: "k mod ?n = ?i \<longleftrightarrow> k = t" if "t \<le> k" "k < t + ?n" for k
    using window_slot_eq[OF that l] .
  have lt: "?i < ?n" using n by simp
  show ?thesis
    unfolding ring_def
  proof (intro conjI allI impI)
    fix k assume k: "t \<le> k \<and> k < ?h"
    then have kw: "t \<le> k" "k < t + ?n" using hn by simp_all
    show "status (?buf ! (k mod length ?buf)) =
        (if im \<and> Suc k = ?h then BEING_IMPORTED else if True \<and> k = t then BEING_EXPORTED else READY)"
    proof (cases "k = t")
      case True
      with ni show ?thesis using lt by auto
    next
      case False
      with slot[OF kw] have "k mod ?n \<noteq> ?i" by simp
      then show ?thesis using ring_status[OF r, of k] k False by simp
    qed
  next
    fix k assume k: "t \<le> k \<and> k < ?h \<and> \<not> (un \<and> Suc k = ?h)"
    then show "absolute_index (?buf ! (k mod length ?buf)) = A ! k"
      using ring_index[OF r, of k] by simp
  next
    fix k assume k: "?h \<le> k \<and> k < t + length ?buf"
    then have kw: "t \<le> k" "k < t + ?n" "k \<noteq> t" using th by simp_all
    from slot[OF kw(1,2)] kw(3) have "k mod ?n \<noteq> ?i" by simp
    then show "status (?buf ! (k mod length ?buf)) = FREE"
      using ring_free[OF r, of k] k by simp
  qed (use n th hn ni ring_flags[OF r] in simp_all)
qed

lemma ring_dispatch:
  assumes r: "ring t buf A im un True"
  shows "t < length A \<and> absolute_index (buf ! (t mod length buf)) = A ! t"
proof -
  from ring_flags[OF r] have th: "t < length A" and ni: "\<not> (im \<and> Suc t = length A)"
    and ui: "un \<longrightarrow> im" by simp_all
  from ni ui have "\<not> (un \<and> Suc t = length A)" by blast
  from ring_index[OF r _ th this] th show ?thesis by simp
qed

lemma ring_recycle:
  assumes r: "ring t buf A im un True"
  shows "ring (Suc t) (buf[t mod length buf := (buf ! (t mod length buf))\<lparr>status := FREE\<rparr>])
           A im un False"
proof -
  let ?n = "length buf" and ?h = "length A"
  let ?i = "t mod ?n"
  let ?buf = "buf[?i := (buf ! ?i)\<lparr>status := FREE\<rparr>]"
  from ring_bounds[OF r] have n: "0 < ?n" and hn: "?h \<le> t + ?n" by simp_all
  from ring_flags[OF r] have th: "t < ?h" and ni: "\<not> (im \<and> Suc t = ?h)" by simp_all
  have lt: "?i < ?n" using n by simp
  have slot: "k mod ?n \<noteq> ?i" if "t < k" "k < t + ?n" for k
    using window_slot_eq[of t k ?n t] that n by simp
  show ?thesis
    unfolding ring_def
  proof (intro conjI allI impI)
    fix k assume k: "Suc t \<le> k \<and> k < ?h"
    then have "k mod ?n \<noteq> ?i" using slot[of k] hn by simp
    then show "status (?buf ! (k mod length ?buf)) =
        (if im \<and> Suc k = ?h then BEING_IMPORTED else if False \<and> k = Suc t then BEING_EXPORTED else READY)"
      using ring_status[OF r, of k] k by simp
  next
    fix k assume k: "Suc t \<le> k \<and> k < ?h \<and> \<not> (un \<and> Suc k = ?h)"
    then show "absolute_index (?buf ! (k mod length ?buf)) = A ! k"
      using ring_index[OF r, of k] by simp
  next
    fix k assume k: "?h \<le> k \<and> k < Suc t + length ?buf"
    show "status (?buf ! (k mod length ?buf)) = FREE"
    proof (cases "k = t + ?n")
      case True
      then show ?thesis using lt by simp
    next
      case False
      with k th have kw: "t < k" "k < t + ?n" by simp_all
      from slot[OF kw] show ?thesis using ring_free[OF r, of k] k kw by simp
    qed
  next
    assume im
    with ni th show "Suc t < ?h" by simp
  qed (use n th hn ni ring_flags[OF r] in simp_all)
qed

subsection \<open>The buffer stays a queue\<close>

lemma fifo_start: "0 < n \<Longrightarrow> fifo (start dflt n)"
  by (simp add: fifo_def start_def MMQ_ctor_def taken_def assigned_def verdicts_def
      dispatched_def ring_initial)

lemma fifo_ring:
  "fifo s \<Longrightarrow> ring (taken s) (circular_buffer (queue s)) (assigned s)
       (reserved (producers s 0) \<noteq> None) (unstored (producers s 0))
       (consumer s = DISPATCH \<or> consumer s = RECYCLE)"
  by (simp add: fifo_def)

lemma step_Producer_returned:
  assumes "after (step DROP (Producer i) s) = Some s'"
  shows "returned s' = (case producers s i of COUNT r \<Rightarrow> returned s @ [(i, r)] | _ \<Rightarrow> returned s)"
  using assms
  by (cases "producer_step DROP (producers s i) (queue s)")
    (auto simp: step_def dest: producer_step_Thrown)


lemma fifo_sink_le: "fifo s \<Longrightarrow> length (sink s) \<le> length (assigned s)"
proof -
  assume f: "fifo s"
  from ring_bounds[OF fifo_ring[OF f]] ring_flags[OF fifo_ring[OF f]] f
  show ?thesis by (cases "consumer s = RECYCLE") (auto simp: taken_def fifo_def)
qed

lemma fifo_frame:
  assumes f: "fifo s"
    and "circular_buffer (queue s') = circular_buffer (queue s)"
    and "circular_buffer_size (queue s') = circular_buffer_size (queue s)"
    and "head (queue s') = head (queue s)"
    and "total_messages (queue s') = total_messages (queue s)"
    and "returned s' = returned s" and "sink s' = sink s" and "tail s' = tail s"
    and "consumer s' = RECYCLE \<longleftrightarrow> consumer s = RECYCLE"
    and "consumer s' = DISPATCH \<longleftrightarrow> consumer s = DISPATCH"
    and "accepting (producers s' 0) = accepting (producers s 0)"
    and "reserved (producers s' 0) = reserved (producers s 0)"
    and "unstored (producers s' 0) = unstored (producers s 0)"
    and "willing (producers s' 0)"
  shows "fifo s'"
  using assms
  by (simp add: fifo_def taken_def assigned_def verdicts_def dispatched_def)

lemma assigned_reserved:
  assumes "accepting (producers s 0)"
  shows "assigned s = map of_nat (positions 0 (map snd (returned s))) @ [of_nat (length (returned s))]"
  using assms by (simp add: assigned_def verdicts_def positions_append)

lemma assigned_idle:
  assumes "\<not> accepting (producers s 0)"
  shows "assigned s = map of_nat (positions 0 (map snd (returned s)))"
  using assms by (simp add: assigned_def verdicts_def)

lemma fifo_reserve:
  assumes f: "fifo s" and p: "producers s 0 = ALLOCATE pl"
    and free: "status (circular_buffer (queue s) ! head (queue s)) = FREE"
    and q: "queue s' = set_status (head (queue s)) BEING_IMPORTED
                   ((queue s)\<lparr>head := (head (queue s) + 1) mod circular_buffer_size (queue s)\<rparr>)"
    and p': "producers s' 0 = STORE_INDEX (head (queue s)) pl"
    and o: "returned s' = returned s" "sink s' = sink s" "tail s' = tail s"
      "consumer s' = consumer s"
  shows "fifo s'"
proof -
  let ?buf = "circular_buffer (queue s)" and ?A = "assigned s"
  from f have n: "length ?buf = circular_buffer_size (queue s)"
    and h: "head (queue s) = length ?A mod length ?buf"
    by (simp_all add: fifo_def)
  from fifo_ring[OF f] p have r: "ring (taken s) ?buf ?A False False
       (consumer s = DISPATCH \<or> consumer s = RECYCLE)" by simp
  from free h have free': "status (?buf ! (length ?A mod length ?buf)) = FREE" by simp
  have A': "assigned s' = ?A @ [of_nat (length (returned s))]"
    using assigned_reserved[of s'] assigned_idle[of s] by (simp add: p p' o)
  have t: "taken s' = taken s" by (simp add: taken_def o)
  have b: "circular_buffer (queue s') =
      ?buf[length ?A mod length ?buf :=
        (?buf ! (length ?A mod length ?buf))\<lparr>status := BEING_IMPORTED\<rparr>]"
    by (simp add: q set_status_def h)
  from ring_reserve[OF r free', of "of_nat (length (returned s))"]
  have r': "ring (taken s') (circular_buffer (queue s')) (assigned s') True True
       (consumer s' = DISPATCH \<or> consumer s' = RECYCLE)"
    by (simp add: A' t b o)
  from fifo_sink_le[OF f] have d: "take (length (sink s)) (?A @ [of_nat (length (returned s))])
      = take (length (sink s)) ?A" by simp
  from f p show ?thesis
    unfolding fifo_def
    using r' fifo_sink_le[OF f] by (simp add: p' A' t o q n h dispatched_def mod_Suc_eq)
qed


lemma fifo_store_index:
  assumes f: "fifo s" and p: "producers s 0 = STORE_INDEX index pl"
    and q: "queue s' = (queue s)\<lparr>circular_buffer := (circular_buffer (queue s))[index :=
             (circular_buffer (queue s) ! index)\<lparr>absolute_index := total_messages (queue s)\<rparr>]\<rparr>"
    and p': "producers s' 0 = STORE_BODY index pl"
    and o: "returned s' = returned s" "sink s' = sink s" "tail s' = tail s"
      "consumer s' = consumer s"
  shows "fifo s'"
proof -
  let ?buf = "circular_buffer (queue s)" and ?A = "assigned s"
  from f p have n: "length ?buf = circular_buffer_size (queue s)"
    and i: "index = (length ?A - 1) mod length ?buf"
    and c: "total_messages (queue s) = of_nat (length (returned s))"
    by (simp_all add: fifo_def)
  from fifo_ring[OF f] p have r: "ring (taken s) ?buf ?A True True
       (consumer s = DISPATCH \<or> consumer s = RECYCLE)" by simp
  have A: "?A = map of_nat (positions 0 (map snd (returned s))) @ [of_nat (length (returned s))]"
    using assigned_reserved[of s] by (simp add: p)
  then have x: "?A ! (length ?A - Suc 0) = total_messages (queue s)"
    by (simp add: c nth_append)
  have A': "assigned s' = ?A" by (simp add: assigned_def verdicts_def p p' o)
  have t: "taken s' = taken s" by (simp add: taken_def o)
  from ring_store_index[OF r]
  have r': "ring (taken s') (circular_buffer (queue s')) (assigned s') True False
       (consumer s' = DISPATCH \<or> consumer s' = RECYCLE)"
    by (simp add: A' t q o i x)
  from f p show ?thesis
    unfolding fifo_def
    using r' by (simp add: p' A' t o q n dispatched_def)
qed

lemma fifo_store_body:
  assumes f: "fifo s" and p: "producers s 0 = STORE_BODY index pl"
    and q: "queue s' = (queue s)\<lparr>circular_buffer := (circular_buffer (queue s))[index :=
             (circular_buffer (queue s) ! index)\<lparr>message_body := body\<rparr>]\<rparr>"
    and p': "producers s' 0 = COMMIT index"
    and o: "returned s' = returned s" "sink s' = sink s" "tail s' = tail s"
      "consumer s' = consumer s"
  shows "fifo s'"
proof -
  have A': "assigned s' = assigned s" by (simp add: assigned_def verdicts_def p p' o)
  have t: "taken s' = taken s" by (simp add: taken_def o)
  from ring_store_body[OF fifo_ring[OF f], of index body] p
  have r': "ring (taken s') (circular_buffer (queue s')) (assigned s') True False
       (consumer s' = DISPATCH \<or> consumer s' = RECYCLE)"
    by (simp add: A' t q o)
  from f p show ?thesis
    unfolding fifo_def
    using r' by (simp add: p' A' t o q dispatched_def)
qed

lemma fifo_commit:
  assumes f: "fifo s" and p: "producers s 0 = COMMIT index"
    and q: "queue s' = set_status index READY (queue s)"
    and p': "producers s' 0 = COUNT True"
    and o: "returned s' = returned s" "sink s' = sink s" "tail s' = tail s"
      "consumer s' = consumer s"
  shows "fifo s'"
proof -
  let ?buf = "circular_buffer (queue s)" and ?A = "assigned s"
  from f p have n: "length ?buf = circular_buffer_size (queue s)"
    and i: "index = (length ?A - 1) mod length ?buf"
    by (simp_all add: fifo_def)
  from fifo_ring[OF f] p have r: "ring (taken s) ?buf ?A True False
       (consumer s = DISPATCH \<or> consumer s = RECYCLE)" by simp
  have A': "assigned s' = ?A" by (simp add: assigned_def verdicts_def p p' o)
  have t: "taken s' = taken s" by (simp add: taken_def o)
  from ring_commit[OF r]
  have r': "ring (taken s') (circular_buffer (queue s')) (assigned s') False False
       (consumer s' = DISPATCH \<or> consumer s' = RECYCLE)"
    by (simp add: A' t q o i set_status_def)
  from f p show ?thesis
    unfolding fifo_def
    using r' by (simp add: p' A' t o q n dispatched_def)
qed

lemma fifo_count:
  assumes f: "fifo s" and p: "producers s 0 = COUNT r"
    and q: "queue s' = count_message (queue s)"
    and p': "producers s' 0 = IDLE"
    and o: "returned s' = returned s @ [(0, r)]" "sink s' = sink s" "tail s' = tail s"
      "consumer s' = consumer s"
  shows "fifo s'"
proof -
  have A': "assigned s' = assigned s"
    by (simp add: assigned_def verdicts_def p p' o positions_append)
  have t: "taken s' = taken s" by (simp add: taken_def o)
  from f p show ?thesis
    unfolding fifo_def
    by (simp add: p' A' t o q dispatched_def count_message_def)
qed


lemma fifo_willing: "fifo s \<Longrightarrow> willing (producers s 0)"
  by (simp add: fifo_def)

lemma fifo_export:
  assumes f: "fifo s" and c: "consumer s = AWAIT"
    and ready: "status (circular_buffer (queue s) ! tail s) = READY"
    and q: "queue s' = set_status (tail s) BEING_EXPORTED (queue s)"
    and c': "consumer s' = DISPATCH"
    and o: "producers s' = producers s" "returned s' = returned s" "sink s' = sink s"
      "tail s' = tail s"
  shows "fifo s'"
proof -
  let ?buf = "circular_buffer (queue s)" and ?A = "assigned s"
  from f have n: "length ?buf = circular_buffer_size (queue s)"
    and t: "tail s = taken s mod length ?buf"
    by (simp_all add: fifo_def)
  from fifo_ring[OF f] c have r: "ring (taken s) ?buf ?A
       (reserved (producers s 0) \<noteq> None) (unstored (producers s 0)) False" by simp
  from ready t have ready': "status (?buf ! (taken s mod length ?buf)) = READY" by simp
  have A': "assigned s' = ?A" by (simp add: assigned_def verdicts_def o)
  have t': "taken s' = taken s" by (simp add: taken_def o c c')
  from ring_export[OF r ready']
  have r': "ring (taken s') (circular_buffer (queue s')) (assigned s')
       (reserved (producers s' 0) \<noteq> None) (unstored (producers s' 0)) True"
    by (simp add: A' t' q o t set_status_def)
  from f show ?thesis
    unfolding fifo_def
    using r' by (simp add: A' t' n q o c' dispatched_def)
qed

lemma fifo_dispatch:
  assumes f: "fifo s" and c: "consumer s = DISPATCH"
    and k: "sink s' = sink s @
                         [(message_body (circular_buffer (queue s) ! tail s),
                           absolute_index (circular_buffer (queue s) ! tail s),
                           total_messages (queue s))]"
    and c': "consumer s' = RECYCLE"
    and o: "producers s' = producers s" "returned s' = returned s" "queue s' = queue s"
      "tail s' = tail s"
  shows "fifo s'"
proof -
  let ?buf = "circular_buffer (queue s)" and ?A = "assigned s"
  from f have t: "tail s = taken s mod length ?buf"
    and d: "dispatched s = take (length (sink s)) ?A"
    by (simp_all add: fifo_def)
  have l: "taken s = length (sink s)" by (simp add: taken_def c)
  from fifo_ring[OF f] c have r: "ring (taken s) ?buf ?A
       (reserved (producers s 0) \<noteq> None) (unstored (producers s 0)) True" by simp
  from ring_dispatch[OF r] t l
  have l: "length (sink s) < length ?A"
    and x: "absolute_index (?buf ! tail s) = ?A ! length (sink s)" by simp_all
  have A': "assigned s' = ?A" by (simp add: assigned_def verdicts_def o)
  have t': "taken s' = taken s" by (simp add: taken_def k c c')
  have d': "dispatched s' = take (length (sink s')) (assigned s')"
    using d l by (simp add: A' k dispatched_def x take_Suc_conv_app_nth)
  from f show ?thesis
    unfolding fifo_def
    using r d' by (simp add: A' t' o c c' k)
qed

lemma fifo_recycle:
  assumes f: "fifo s" and c: "consumer s = RECYCLE"
    and q: "queue s' = set_status (tail s) FREE (queue s)"
    and k: "tail s' = (tail s + 1) mod circular_buffer_size (queue s)"
    and c': "consumer s' = AWAIT"
    and o: "producers s' = producers s" "returned s' = returned s" "sink s' = sink s"
  shows "fifo s'"
proof -
  let ?buf = "circular_buffer (queue s)" and ?A = "assigned s"
  from f c have n: "length ?buf = circular_buffer_size (queue s)"
    and t: "tail s = taken s mod length ?buf"
    and e: "sink s \<noteq> []"
    by (simp_all add: fifo_def)
  from fifo_ring[OF f] c have r: "ring (taken s) ?buf ?A
       (reserved (producers s 0) \<noteq> None) (unstored (producers s 0)) True" by simp
  have A': "assigned s' = ?A" by (simp add: assigned_def verdicts_def o)
  from e have t': "taken s' = Suc (taken s)" by (cases "sink s") (simp_all add: taken_def o c c')
  from ring_recycle[OF r]
  have r': "ring (taken s') (circular_buffer (queue s')) (assigned s')
       (reserved (producers s' 0) \<noteq> None) (unstored (producers s' 0)) False"
    by (simp add: A' t' q o t set_status_def)
  from f show ?thesis
    unfolding fifo_def
    using r' by (simp add: A' t' n[symmetric] q k o c' dispatched_def mod_Suc_eq)
qed

lemma consumer_step_fifo:
  assumes f: "fifo s" and a: "after (consumer_step s) = Some s'"
  shows "fifo s'"
proof -
  from consumer_step_after[OF a]
  consider (exit) "consumer s = AWAIT" "s' = s\<lparr>queue := queue s, consumer := EXITED\<rparr>"
    | (export) "consumer s = AWAIT"
        "status (circular_buffer (queue s) ! tail s) = READY"
        "s' = s\<lparr>queue := set_status (tail s) BEING_EXPORTED (queue s), consumer := DISPATCH\<rparr>"
    | (dispatch) "consumer s = DISPATCH"
        "s' = s\<lparr>sink := sink s @
                         [(message_body (circular_buffer (queue s) ! tail s),
                           absolute_index (circular_buffer (queue s) ! tail s),
                           total_messages (queue s))],
                       consumer := RECYCLE\<rparr>"
    | (recycle) "consumer s = RECYCLE"
        "s' = s\<lparr>queue := set_status (tail s) FREE (queue s),
                 tail := (tail s + 1) mod circular_buffer_size (queue s),
                 consumer := AWAIT\<rparr>"
    by blast
  then show ?thesis
  proof cases
    case exit
    from f show ?thesis
      by (rule fifo_frame) (simp_all add: exit fifo_willing[OF f])
  next
    case export
    from f export(1,2) show ?thesis by (rule fifo_export) (simp_all add: export(3))
  next
    case dispatch
    from f dispatch(1) show ?thesis by (rule fifo_dispatch) (simp_all add: dispatch(2))
  next
    case recycle
    from f recycle(1) show ?thesis by (rule fifo_recycle) (simp_all add: recycle(2))
  qed
qed

lemma producer_step_fifo:
  assumes f: "fifo s" and a: "after (step DROP (Producer 0) s) = Some s'"
  shows "fifo s'"
proof -
  note rt = step_Producer_returned[OF a]
  from step_Producer_after[OF a]
  consider (thrown) "producer_step DROP (producers s 0) (queue s) = Thrown (queue s')"
    | (returned) p' where "producer_step DROP (producers s 0) (queue s) = Returned p' (queue s')"
      "producers s' = (producers s)(0 := p')" "consumer s' = consumer s" "tail s' = tail s"
      "sink s' = sink s"
    by blast
  then show ?thesis
  proof cases
    case thrown
    from producer_step_Thrown[OF thrown] fifo_willing[OF f] show ?thesis by auto
  next
    case returned
    from producer_step_cases[OF returned(1)]
    consider (none) pl where "producers s 0 = ALLOCATE pl" "p' = COUNT False" "queue s' = queue s"
      | (some) pl where "producers s 0 = ALLOCATE pl" "p' = STORE_INDEX (head (queue s)) pl"
          "status (circular_buffer (queue s) ! head (queue s)) = FREE"
          "queue s' = set_status (head (queue s)) BEING_IMPORTED
             ((queue s)\<lparr>head := (head (queue s) + 1) mod circular_buffer_size (queue s)\<rparr>)"
      | (index) index pl where "producers s 0 = STORE_INDEX index pl" "p' = STORE_BODY index pl"
          "queue s' = (queue s)\<lparr>circular_buffer := (circular_buffer (queue s))[index :=
             (circular_buffer (queue s) ! index)\<lparr>absolute_index := total_messages (queue s)\<rparr>]\<rparr>"
      | (body) index body where "producers s 0 = STORE_BODY index (Some body)" "p' = COMMIT index"
          "queue s' = (queue s)\<lparr>circular_buffer := (circular_buffer (queue s))[index :=
             (circular_buffer (queue s) ! index)\<lparr>message_body := body\<rparr>]\<rparr>"
      | (commit) index where "producers s 0 = COMMIT index" "p' = COUNT True"
          "queue s' = set_status index READY (queue s)"
      | (count) r where "producers s 0 = COUNT r" "p' = IDLE" "queue s' = count_message (queue s)"
      by blast
    then show ?thesis
    proof cases
      case none
      from f show ?thesis
        by (rule fifo_frame) (simp_all add: none returned rt)
    next
      case some
      from f some(1,3,4) show ?thesis
        by (rule fifo_reserve) (simp_all add: some returned rt)
    next
      case index
      from f index(1,3) show ?thesis
        by (rule fifo_store_index) (simp_all add: index returned rt)
    next
      case body
      from f body(1,3) show ?thesis
        by (rule fifo_store_body) (simp_all add: body returned rt)
    next
      case commit
      from f commit(1,3) show ?thesis
        by (rule fifo_commit) (simp_all add: commit returned rt)
    next
      case count
      from f count(1,3) show ?thesis
        by (rule fifo_count) (simp_all add: count returned rt)
    qed
  qed
qed

lemma step_fifo:
  assumes f: "fifo s" and e: "single_producer e" and a: "after (step DROP e s) = Some s'"
  shows "fifo s'"
proof (cases e)
  case (Call i payload)
  with a e have s': "s' = s\<lparr>producers := (producers s)(0 := ALLOCATE payload)\<rparr>"
    and i: "producers s 0 = IDLE" and w: "payload \<noteq> None"
    by (simp_all add: step_def split: if_splits)
  from f show ?thesis by (rule fifo_frame) (simp_all add: s' i w)
next
  case (Producer i)
  with a e show ?thesis using producer_step_fifo[OF f] by simp
next
  case Consumer
  with a show ?thesis using consumer_step_fifo[OF f] by (simp add: step_def)
next
  case Destroy
  with a have s': "s' = s\<lparr>queue := MMQ_dtor (queue s)\<rparr>"
    by (simp add: step_def)
  from f show ?thesis
    by (rule fifo_frame) (simp_all add: s' MMQ_dtor_def fifo_willing[OF f])
qed

lemma run_fifo:
  "fifo s \<Longrightarrow> \<forall>e \<in> set es. single_producer e \<Longrightarrow> run DROP es s = Some s' \<Longrightarrow> fifo s'"
proof (induction es arbitrary: s)
  case Nil
  then show ?case by simp
next
  case (Cons e es)
  from Cons.prems(3) obtain s1 where s1: "after (step DROP e s) = Some s1"
    and r: "run DROP es s1 = Some s'"
    by (auto split: option.splits)
  from Cons.prems(2) have e: "single_producer e" and es: "\<forall>e \<in> set es. single_producer e"
    by simp_all
  from Cons.IH[OF step_fifo[OF Cons.prems(1) e s1] es r] show ?case .
qed

subsection \<open>Rejections under the blocking policy\<close>

lemma orderly_start: "orderly (start dflt n)"
  by (simp add: orderly_def rejected_def start_def)

lemma producer_step_block_allocate:
  assumes "producer_step False (ALLOCATE pl) q = Returned p' q'"
  shows "destructing q' = destructing q
       \<and> (if destructing q then p' = COUNT False else accepting p')"
  using assms
  by (auto simp: PushMessageAllocate_def reserve_head_def Increment_def Let_def set_status_def
      split: if_splits)

lemma all_accepted:
  assumes "map snd R = replicate a True @ replicate b False" and "False \<notin> set (map snd R)"
  shows "map snd R = replicate (length R) True"
proof -
  from assms have "b = 0" by (cases b) auto
  with assms(1) have "map snd R = replicate a True" by simp
  moreover from this have "length R = a" by (metis length_map length_replicate)
  ultimately show ?thesis by simp
qed

lemma producer_step_orderly:
  assumes o: "orderly s" and a: "after (step False (Producer 0) s) = Some s'"
  shows "orderly s'"
proof -
  note rt = step_Producer_returned[OF a]
  from o obtain x y where xy: "map snd (returned s) = replicate x True @ replicate y False"
    unfolding orderly_def by blast
  from step_Producer_after[OF a]
  consider (thrown) "s' = s\<lparr>queue := queue s', producers := (producers s)(0 := IDLE)\<rparr>"
      "producer_step False (producers s 0) (queue s) = Thrown (queue s')"
    | (returned) p' where "producer_step False (producers s 0) (queue s) = Returned p' (queue s')"
      "producers s' = (producers s)(0 := p')"
    by blast
  then show ?thesis
  proof cases
    case thrown
    from producer_step_Thrown[OF thrown(2)] obtain index where
      "queue s' = queue s" "producers s 0 = STORE_BODY index None" by blast
    with o rt thrown(1) show ?thesis
      by (auto simp: orderly_def rejected_def)
  next
    case returned
    show ?thesis
    proof (cases "producers s 0")
      case IDLE
      with returned show ?thesis by simp
    next
      case (ALLOCATE pl)
      from producer_step_block_allocate[OF returned(1)[unfolded ALLOCATE]]
      have d: "destructing (queue s') = destructing (queue s)"
        and c: "if destructing (queue s) then p' = COUNT False else accepting p'" by simp_all
      show ?thesis
      proof (cases "destructing (queue s)")
        case True
        with c d o rt ALLOCATE returned(2) show ?thesis
          by (auto simp: orderly_def rejected_def)
      next
        case False
        with o have "\<not> rejected s" by (auto simp: orderly_def)
        moreover from False c have "accepting p'" by simp
        then have "p' \<noteq> COUNT False" by auto
        ultimately have "\<not> rejected s'"
          using rt ALLOCATE returned(2) by (simp add: rejected_def)
        with o rt ALLOCATE show ?thesis by (simp add: orderly_def)
      qed
    next
      case (STORE_INDEX index pl)
      with o have "\<not> rejected s" by (auto simp: orderly_def)
      moreover from producer_step_cases[OF returned(1)] STORE_INDEX
      have "p' = STORE_BODY index pl" by auto
      ultimately have "\<not> rejected s'"
        using rt STORE_INDEX returned(2) by (simp add: rejected_def)
      with o rt STORE_INDEX show ?thesis by (simp add: orderly_def)
    next
      case (STORE_BODY index pl)
      with o have "\<not> rejected s" by (auto simp: orderly_def)
      moreover from producer_step_cases[OF returned(1)] STORE_BODY
      have "p' = COMMIT index" by auto
      ultimately have "\<not> rejected s'"
        using rt STORE_BODY returned(2) by (simp add: rejected_def)
      with o rt STORE_BODY show ?thesis by (simp add: orderly_def)
    next
      case (COMMIT index)
      with o have "\<not> rejected s" by (auto simp: orderly_def)
      moreover from producer_step_cases[OF returned(1)] COMMIT
      have "p' = COUNT True" by auto
      ultimately have "\<not> rejected s'"
        using rt COMMIT returned(2) by (simp add: rejected_def)
      with o rt COMMIT show ?thesis by (simp add: orderly_def)
    next
      case (COUNT r)
      from producer_step_cases[OF returned(1)] COUNT
      have p': "p' = IDLE" and q': "queue s' = count_message (queue s)" by auto
      from rt COUNT have r': "returned s' = returned s @ [(0, r)]" by simp
      show ?thesis
      proof (cases r)
        case True
        with o COUNT have n: "\<not> rejected s" by (auto simp: orderly_def)
        then have "False \<notin> set (map snd (returned s))" by (simp add: rejected_def)
        from all_accepted[OF xy this]
        have "map snd (returned s') = replicate (Suc (length (returned s))) True @ replicate 0 False"
          by (simp add: r' True replicate_append_same)
        moreover from n have "\<not> rejected s'"
          by (simp add: rejected_def r' True returned(2) p')
        ultimately show ?thesis unfolding orderly_def by blast
      next
        case False
        with o COUNT have d: "destructing (queue s)" by (auto simp: orderly_def rejected_def)
        have "map snd (returned s') = replicate x True @ replicate (Suc y) False"
          by (simp add: r' False xy replicate_append_same)
        then have "\<exists>a b. map snd (returned s') = replicate a True @ replicate b False"
          by blast
        moreover from d have "destructing (queue s')" by (simp add: q' count_message_def)
        moreover have "\<not> accepting (producers s' 0)" by (simp add: returned(2) p')
        ultimately show ?thesis unfolding orderly_def by blast
      qed
    qed
  qed
qed

lemma step_orderly:
  assumes o: "orderly s" and e: "single_producer e" and a: "after (step False e s) = Some s'"
  shows "orderly s'"
proof (cases e)
  case (Call i payload)
  with a e have s': "s' = s\<lparr>producers := (producers s)(0 := ALLOCATE payload)\<rparr>"
    and i: "producers s 0 = IDLE"
    by (simp_all add: step_def split: if_splits)
  with o show ?thesis by (simp add: orderly_def rejected_def)
next
  case (Producer i)
  with a e show ?thesis using producer_step_orderly[OF o] by simp
next
  case Consumer
  with a have c: "after (consumer_step s) = Some s'" by (simp add: step_def)
  from consumer_step_after[OF c]
  have "returned s' = returned s" "producers s' = producers s"
    "destructing (queue s') = destructing (queue s)"
    by (auto simp: set_status_def)
  with o show ?thesis by (simp add: orderly_def rejected_def)
next
  case Destroy
  with a have s': "s' = s\<lparr>queue := MMQ_dtor (queue s)\<rparr>"
    by (simp add: step_def)
  with o show ?thesis by (simp add: orderly_def rejected_def MMQ_dtor_def)
qed

lemma run_orderly:
  "orderly s \<Longrightarrow> \<forall>e \<in> set es. single_producer e \<Longrightarrow> run False es s = Some s' \<Longrightarrow> orderly s'"
proof (induction es arbitrary: s)
  case Nil
  then show ?case by simp
next
  case (Cons e es)
  from Cons.prems(3) obtain s1 where s1: "after (step False e s) = Some s1"
    and r: "run False es s1 = Some s'"
    by (auto split: option.splits)
  from Cons.prems(2) have e: "single_producer e" and es: "\<forall>e \<in> set es. single_producer e"
    by simp_all
  from Cons.IH[OF step_orderly[OF Cons.prems(1) e s1] es r] show ?case .
qed

lemma orderly_assigned:
  assumes "orderly s"
  shows "positions 0 (verdicts s) = [0..<length (positions 0 (verdicts s))]"
proof -
  from assms obtain a b where ab: "map snd (returned s) = replicate a True @ replicate b False"
    unfolding orderly_def by blast
  have "\<exists>a' b'. verdicts s = replicate a' True @ replicate b' False"
  proof (cases "accepting (producers s 0)")
    case True
    with assms have "\<not> rejected s" by (auto simp: orderly_def)
    then have "False \<notin> set (map snd (returned s))" by (simp add: rejected_def)
    from all_accepted[OF ab this] True
    have "verdicts s = replicate (Suc (length (returned s))) True @ replicate 0 False"
      by (simp add: verdicts_def replicate_append_same)
    then show ?thesis by blast
  next
    case False
    with ab show ?thesis by (auto simp: verdicts_def)
  qed
  then obtain a' b' where "verdicts s = replicate a' True @ replicate b' False" by blast
  then have "positions 0 (verdicts s) = [0..<a']" by (simp add: positions_all_accepted)
  then show ?thesis by simp
qed

lemma fifo_dispatched:
  assumes f: "fifo s" and j: "j < length (sink s)"
  shows "dispatched s ! j = of_nat (positions 0 (verdicts s) ! j)"
    and "j < length (positions 0 (verdicts s))"
    and "positions 0 (verdicts s) ! j \<le> length (returned s)"
proof -
  from f have d: "dispatched s = take (length (sink s)) (assigned s)" by (simp add: fifo_def)
  from fifo_sink_le[OF f] j have l: "j < length (assigned s)" by simp
  then show l': "j < length (positions 0 (verdicts s))" by (simp add: assigned_def)
  from d j l' show "dispatched s ! j = of_nat (positions 0 (verdicts s) ! j)"
    by (simp add: assigned_def)
  from l' have "positions 0 (verdicts s) ! j \<in> set (positions 0 (verdicts s))" by simp
  from positions_bounds[OF this] have "positions 0 (verdicts s) ! j < length (verdicts s)" by simp
  then show "positions 0 (verdicts s) ! j \<le> length (returned s)"
    by (simp add: verdicts_def split: if_splits)
qed

lemma size_t_of_nat_less:
  assumes "x < y" and "y < 2 ^ 64"
  shows "(of_nat x :: size_t) < of_nat y"
  using assms by (simp add: word_less_nat_alt unat_of_nat)

lemma size_t_unat_of_nat:
  assumes "x < 2 ^ 64"
  shows "unat (of_nat x :: size_t) = x"
  using assms by (simp add: unat_of_nat)

section \<open>A submission that runs alone is a run of its thread\<close>

lemma submit_is_a_run:
  assumes i: "producers s i = IDLE" and r: "submit DROP T sub (queue s) = Returned result q'"
  shows "run DROP (Call i (materialize T sub) # replicate (if result then 5 else 2) (Producer i)) s
       = Some (s\<lparr>queue := q', producers := (producers s)(i := IDLE),
                   returned := returned s @ [(i, result)]\<rparr>)"
proof -
  from submit_Returned[OF r]
  consider (rejected) "\<not> result" "q' = count_message (queue s)"
      "PushMessageAllocate DROP (queue s) = Returned None (queue s)"
    | (accepted) body where "result" "materialize T sub = Some body" "q' = published body (queue s)"
      "head (queue s) < length (circular_buffer (queue s))" "circular_buffer_size (queue s) \<noteq> 0"
      "status (circular_buffer (queue s) ! head (queue s)) = FREE" "DROP \<or> \<not> destructing (queue s)"
    by blast
  then show ?thesis
  proof cases
    case rejected
    then show ?thesis
      by (simp add: step_def i numeral_2_eq_2)
  next
    case accepted
    have a: "PushMessageAllocate DROP (queue s) = Returned (Some (head (queue s)))
        (set_status (head (queue s)) BEING_IMPORTED
           ((queue s)\<lparr>head := (head (queue s) + 1) mod circular_buffer_size (queue s)\<rparr>))"
      using accepted(4-7)
      by (auto simp: PushMessageAllocate_def reserve_head_def Increment_def Let_def)
    show ?thesis
      using accepted(1,2,4)
      by (simp add: step_def i a eval_nat_numeral accepted(3) published_def
          store_absolute_index_def store_message_body_def PushMessageCommit_def
          set_status_def count_message_def)
  qed
qed


lemma submit_Thrown:
  assumes "submit DROP T sub q = Thrown q'"
  shows "materialize T sub = None \<and> q' = abandoned q
       \<and> head q < length (circular_buffer q) \<and> circular_buffer_size q \<noteq> 0
       \<and> status (circular_buffer q ! head q) = FREE \<and> (DROP \<or> \<not> destructing q)"
proof (cases "PushMessageAllocate DROP q")
  case (Returned idx q1)
  note al = PushMessageAllocate_Returned[OF Returned]
  show ?thesis
  proof (cases idx)
    case None
    with Returned assms submit_rejected[of DROP q q1 T sub] show ?thesis by simp
  next
    case (Some i)
    show ?thesis
    proof (cases "materialize T sub")
      case None
      with Some Returned assms al submit_thrown[of DROP q i q1 T sub] show ?thesis by auto
    next
      case (Some body)
      with \<open>idx = Some i\<close> Returned assms submit_accepted[of DROP q i q1 T sub body]
      show ?thesis by simp
    qed
  qed
qed (use assms in \<open>simp_all add: submit_unfold PushMessageAllocate_not_Thrown\<close>)

lemma thrown_submit_is_a_run:
  assumes i: "producers s i = IDLE" and r: "submit DROP T sub (queue s) = Thrown q'"
  shows "run DROP (Call i (materialize T sub) # replicate 3 (Producer i)) s
       = Some (s\<lparr>queue := q', producers := (producers s)(i := IDLE)\<rparr>)"
proof -
  note t = submit_Thrown[OF r]
  have a: "PushMessageAllocate DROP (queue s) = Returned (Some (head (queue s)))
      (set_status (head (queue s)) BEING_IMPORTED
         ((queue s)\<lparr>head := (head (queue s) + 1) mod circular_buffer_size (queue s)\<rparr>))"
    using t by (auto simp: PushMessageAllocate_def reserve_head_def Increment_def Let_def)
  show ?thesis
    using t
    by (simp add: step_def i a eval_nat_numeral abandoned_def
        store_absolute_index_def store_message_body_def set_status_def)
qed

lemma producer_step_counts:
  assumes "producer_step DROP p q = Returned p' q'"
  shows "total_messages q' = (if p' = IDLE then total_messages q + 1 else total_messages q)"
  using producer_step_cases[OF assms]
  by (auto simp: count_message_def)

section \<open>Evaluation of concrete runs\<close>

lemmas evaluate =
  step_def consumer_step_def start_def MMQ_ctor_def MMQ_dtor_def PushMessageAllocate_def
  reserve_head_def Increment_def set_status_def store_absolute_index_def
  store_message_body_def PushMessageCommit_def count_message_def await_ready_def
  dispatch_entry_def recycle_def Let_def

section \<open>The claims\<close>

subsection \<open>C1: the indices the sink receives\<close>

text \<open>
  C1 says that the \<open>absolute_index\<close> values dispatched to the sink are strictly
  increasing, and under the blocking policy are \<open>0, 1, ..., M - 1\<close> in order. With two
  producer threads they are not. Line 95 reads \<open>total_messages_\<close> outside the mutex and
  line 100 increments it after the entry is published, so a second producer can reserve,
  publish and count between another producer's reservation (line 92) and its reading of
  the counter (line 95). Here thread 0 reserves entry 0, thread 1 then runs its whole
  submission on entry 1 with index 0, and thread 0 continues with index 1: the consumer
  dispatches entry 0 first, and the sink receives the indices 1, 0.
\<close>

theorem two_producers_dispatch_out_of_order:
  "map_option sink
     (run False
        [Call 0 (Some ''a00''), Call 1 (Some ''b00''),
         Producer 0,
         Producer 1, Producer 1, Producer 1, Producer 1, Producer 1,
         Producer 0, Producer 0, Producer 0, Producer 0,
         Consumer, Consumer, Consumer, Consumer, Consumer]
        (start [] 2))
   = Some [(''a00'', 1, 2), (''b00'', 0, 2)]"
  by (simp add: evaluate)

text \<open>
  With one producer thread what C1 says holds, in every state of every run in which
  fewer than \<open>2^64\<close> submissions have returned (the counter has not wrapped): the
  indices the sink has received are strictly increasing; under the blocking policy they
  are \<open>0, 1, ...\<close> without a gap; and under either policy the index of the \<open>j\<close>-th
  message received, less \<open>j\<close>, is the number of submissions before it that returned
  \<open>false\<close>.
\<close>

theorem one_producer_dispatch_order:
  assumes "0 < n" and "\<forall>e \<in> set es. single_producer e"
    and "run DROP es (start dflt n) = Some s"
    and "length (returned s) < 2 ^ 64"
  shows "sorted_wrt (<) (dispatched s)
       \<and> (\<not> DROP \<longrightarrow> dispatched s = map of_nat [0..<length (sink s)])
       \<and> (\<forall>j < length (sink s).
            unat (dispatched s ! j) - j =
              length (filter Not (take (unat (dispatched s ! j)) (map snd (returned s)))))"
proof (intro conjI impI allI)
  let ?P = "positions 0 (verdicts s)"
  from run_fifo[OF fifo_start[OF assms(1)] assms(2,3)] have f: "fifo s" .
  then have d: "dispatched s = map of_nat (take (length (sink s)) ?P)"
    by (simp add: fifo_def assigned_def take_map)
  have l: "length (sink s) \<le> length ?P"
    using fifo_sink_le[OF f] by (simp add: assigned_def)
  have b: "x < 2 ^ 64" if "x \<in> set (take (length (sink s)) ?P)" for x
  proof -
    from that obtain j where j: "j < length (sink s)" and x: "x = ?P ! j"
      using l by (auto simp: in_set_conv_nth)
    from fifo_dispatched(3)[OF f j] x assms(4) show ?thesis by simp
  qed
  have "sorted_wrt (<) (take (length (sink s)) ?P)"
    by (rule sorted_wrt_take[OF positions_sorted])
  then have "sorted_wrt (\<lambda>x y. (of_nat x :: size_t) < of_nat y) (take (length (sink s)) ?P)"
    by (rule sorted_wrt_mono_rel[rotated]) (blast intro: size_t_of_nat_less b)
  then show "sorted_wrt (<) (dispatched s)"
    by (simp add: d sorted_wrt_map)
  {
    assume "\<not> DROP"
    with assms(3) have r: "run False es (start dflt n) = Some s" by simp
    from orderly_assigned[OF run_orderly[OF orderly_start assms(2) r]]
    have "?P = [0..<length ?P]" .
    then have "take (length (sink s)) ?P = take (length (sink s)) [0..<length ?P]" by simp
    with l have "take (length (sink s)) ?P = [0..<length (sink s)]"
      by (simp add: take_upt)
    then show "dispatched s = map of_nat [0..<length (sink s)]" by (simp add: d)
  }
  {
    fix j assume j: "j < length (sink s)"
    let ?x = "?P ! j"
    note fd = fifo_dispatched[OF f j]
    from fd(3) assms(4) have "?x < 2 ^ 64" by simp
    with fd(1) have u: "unat (dispatched s ! j) = ?x" by (simp add: size_t_unat_of_nat)
    from positions_drops[OF fd(2)]
    have "?x - j = length (filter Not (take ?x (verdicts s)))" by simp
    moreover from fd(3) have "take ?x (verdicts s) = take ?x (map snd (returned s))"
      by (simp add: verdicts_def)
    ultimately show "unat (dispatched s ! j) - j =
        length (filter Not (take (unat (dispatched s ! j)) (map snd (returned s))))"
      by (simp add: u)
  }
qed

text \<open>
  An instance under the dropping policy, with a buffer of one entry: the second of three
  submissions is dropped, and the sink receives the indices 0 and 2.
\<close>

theorem one_producer_dispatch_order_witness:
  "dispatched (the (run True
     [Call 0 (Some ''M00''), Producer 0, Producer 0, Producer 0, Producer 0, Producer 0,
      Call 0 (Some ''M01''), Producer 0, Producer 0,
      Consumer, Consumer, Consumer,
      Call 0 (Some ''Plus one''), Producer 0, Producer 0, Producer 0, Producer 0, Producer 0,
      Consumer, Consumer]
     (start [] 1))) = [0, 2]
   \<and> map snd (returned (the (run True
     [Call 0 (Some ''M00''), Producer 0, Producer 0, Producer 0, Producer 0, Producer 0,
      Call 0 (Some ''M01''), Producer 0, Producer 0,
      Consumer, Consumer, Consumer,
      Call 0 (Some ''Plus one''), Producer 0, Producer 0, Producer 0, Producer 0, Producer 0,
      Consumer, Consumer]
     (start [] 1)))) = [True, False, True]
   \<and> sorted_wrt (<) [0, 2 :: size_t]
   \<and> unat (2 :: size_t) - 1 = length (filter Not (take (unat (2 :: size_t)) [True, False, True]))"
proof -
  let ?es = "[Call 0 (Some ''M00''), Producer 0, Producer 0, Producer 0, Producer 0, Producer 0,
      Call 0 (Some ''M01''), Producer 0, Producer 0,
      Consumer, Consumer, Consumer,
      Call 0 (Some ''Plus one''), Producer 0, Producer 0, Producer 0, Producer 0, Producer 0,
      Consumer, Consumer]"
  let ?s = "the (run True ?es (start [] 1))"
  have n: "(0::nat) < 1" by simp
  have e: "\<forall>e \<in> set ?es. single_producer e" by simp
  have r: "run True ?es (start [] 1) = Some ?s" by (simp add: evaluate)
  have d: "dispatched ?s = [0, 2]" by (simp add: evaluate dispatched_def)
  have v: "map snd (returned ?s) = [True, False, True]" by (simp add: evaluate)
  have "length (map snd (returned ?s)) = 3" by (simp only: v) simp
  then have b: "length (returned ?s) < 2 ^ 64" by simp
  from one_producer_dispatch_order[OF n e r b] d v show ?thesis by simp
qed

subsection \<open>C2: the consumer's wait\<close>

text \<open>
  C2 says that the consumer leaves its loop only when shutdown is set and the entry at
  \<open>tail\<close> is not \<open>READY\<close>, and that a \<open>READY\<close> entry is exported even after shutdown.
  The second \<open>return\<close> (lines 158-160) leaves the loop with the entry at \<open>tail\<close>
  \<open>READY\<close>: the entry stays \<open>READY\<close> and is not dispatched.
\<close>

theorem consumer_exits_on_shutdown_with_ready_entry:
  "await_ready 0
     \<lparr>circular_buffer_size = 1,
      circular_buffer = [\<lparr>absolute_index = 0, message_body = ''one'', status = READY\<rparr>],
      head = 0, total_messages = 1, destructing = True\<rparr>
   = Returned EXIT
     \<lparr>circular_buffer_size = 1,
      circular_buffer = [\<lparr>absolute_index = 0, message_body = ''one'', status = READY\<rparr>],
      head = 0, total_messages = 1, destructing = True\<rparr>"
  by (simp add: await_ready_def)

text \<open>
  C2 as the code has it: at its wait the consumer leaves the loop whenever
  \<open>destructing_\<close> is set, whatever the entry at \<open>tail\<close>; with \<open>destructing_\<close> not set it
  marks a \<open>READY\<close> entry \<open>BEING_EXPORTED\<close> and goes on to the dispatch, and waits
  otherwise. At the dispatch the sink receives that entry.
\<close>

theorem consumer_await_step:
  "(consumer s = AWAIT \<and> tail s < length (circular_buffer (queue s)) \<longrightarrow>
      consumer_step s =
        (if destructing (queue s) then Returned () (s\<lparr>consumer := EXITED\<rparr>)
         else if status (circular_buffer (queue s) ! tail s) = READY
           then Returned () (s\<lparr>queue := set_status (tail s) BEING_EXPORTED (queue s),
                                 consumer := DISPATCH\<rparr>)
         else Blocked))
   \<and> (consumer s = DISPATCH \<and> tail s < length (circular_buffer (queue s)) \<longrightarrow>
      consumer_step s =
        Returned () (s\<lparr>sink := sink s @
                          [(message_body (circular_buffer (queue s) ! tail s),
                            absolute_index (circular_buffer (queue s) ! tail s),
                            total_messages (queue s))],
                        consumer := RECYCLE\<rparr>))"
  by (simp add: consumer_step_def await_ready_eq dispatch_entry_def)

text \<open>
  C2, instances: one published entry and no shutdown, at the wait and at the dispatch.
\<close>

theorem consumer_await_step_witness:
  "consumer_step
     \<lparr>queue = \<lparr>circular_buffer_size = 1,
        circular_buffer = [\<lparr>absolute_index = 0, message_body = ''one'', status = READY\<rparr>],
        head = 0, total_messages = 1, destructing = False\<rparr>,
      producers = (\<lambda>_. IDLE), returned = [(0, True)], consumer = AWAIT, tail = 0, sink = []\<rparr>
   = Returned ()
     \<lparr>queue = \<lparr>circular_buffer_size = 1,
        circular_buffer = [\<lparr>absolute_index = 0, message_body = ''one'', status = BEING_EXPORTED\<rparr>],
        head = 0, total_messages = 1, destructing = False\<rparr>,
      producers = (\<lambda>_. IDLE), returned = [(0, True)], consumer = DISPATCH, tail = 0, sink = []\<rparr>
   \<and> consumer_step
     \<lparr>queue = \<lparr>circular_buffer_size = 1,
        circular_buffer = [\<lparr>absolute_index = 0, message_body = ''one'', status = BEING_EXPORTED\<rparr>],
        head = 0, total_messages = 1, destructing = False\<rparr>,
      producers = (\<lambda>_. IDLE), returned = [(0, True)], consumer = DISPATCH, tail = 0, sink = []\<rparr>
   = Returned ()
     \<lparr>queue = \<lparr>circular_buffer_size = 1,
        circular_buffer = [\<lparr>absolute_index = 0, message_body = ''one'', status = BEING_EXPORTED\<rparr>],
        head = 0, total_messages = 1, destructing = False\<rparr>,
      producers = (\<lambda>_. IDLE), returned = [(0, True)], consumer = RECYCLE, tail = 0,
      sink = [(''one'', 0, 1)]\<rparr>"
  using consumer_await_step
    [of "\<lparr>queue = \<lparr>circular_buffer_size = 1,
        circular_buffer = [\<lparr>absolute_index = 0, message_body = ''one'', status = READY\<rparr>],
        head = 0, total_messages = 1, destructing = False\<rparr>,
      producers = (\<lambda>_. IDLE), returned = [(0, True)], consumer = AWAIT, tail = 0, sink = []\<rparr>"]
    consumer_await_step
    [of "\<lparr>queue = \<lparr>circular_buffer_size = 1,
        circular_buffer = [\<lparr>absolute_index = 0, message_body = ''one'', status = BEING_EXPORTED\<rparr>],
        head = 0, total_messages = 1, destructing = False\<rparr>,
      producers = (\<lambda>_. IDLE), returned = [(0, True)], consumer = DISPATCH, tail = 0, sink = []\<rparr>"]
  by (simp add: set_status_def)

subsection \<open>C3: submissions after shutdown\<close>

text \<open>
  C3 says that under either policy a submission after shutdown returns \<open>false\<close> and
  publishes nothing. The blocking \<open>PushMessageAllocate\<close> returns \<open>-1\<close> when
  \<open>destructing_\<close> is set (line 212), but the dropping one (lines 189-204) does not read
  \<open>destructing_\<close>: here the queue has been destroyed, the entry at \<open>head_\<close> is \<open>FREE\<close>,
  and the submission returns \<open>true\<close> with the entry \<open>READY\<close>.
\<close>

theorem drop_policy_accepts_after_shutdown:
  "submit True plain (ByCopy ''late'') (MMQ_dtor (MMQ_ctor [] 1))
   = Returned True
     \<lparr>circular_buffer_size = 1,
      circular_buffer = [\<lparr>absolute_index = 0, message_body = ''late'', status = READY\<rparr>],
      head = 0, total_messages = 1, destructing = True\<rparr>"
  by (simp add: evaluate PushMessage_copy_def plain_def)

text \<open>
  The blocking policy does what C3 says: a submission (by copy, by move or in place)
  called with \<open>destructing_\<close> set returns \<open>false\<close>, and the queue is as before but for
  \<open>total_messages_\<close>, which is incremented: no entry changes. Among other threads, its
  \<open>PushMessageAllocate\<close> changes nothing and line 100 is the statement that follows.
\<close>

theorem block_policy_rejects_after_shutdown:
  assumes "destructing q"
  shows "submit False T sub q = Returned False (q\<lparr>total_messages := total_messages q + 1\<rparr>)
       \<and> producer_step False (ALLOCATE payload) q = Returned (COUNT False) q"
  using submit_after_shutdown_block[OF assms] assms
  by (simp add: count_message_def PushMessageAllocate_def)

text \<open>
  An instance: a blocking queue of one entry, destroyed, then a submission by copy.
\<close>

theorem block_policy_rejects_after_shutdown_witness:
  "submit False plain (ByCopy ''late'') (MMQ_dtor (MMQ_ctor [] 1))
   = Returned False
     \<lparr>circular_buffer_size = 1,
      circular_buffer = [\<lparr>absolute_index = 0, message_body = [], status = FREE\<rparr>],
      head = 0, total_messages = 1, destructing = True\<rparr>
   \<and> producer_step False (ALLOCATE (Some ''late'')) (MMQ_dtor (MMQ_ctor [] 1))
   = Returned (COUNT False) (MMQ_dtor (MMQ_ctor [] 1))"
  using block_policy_rejects_after_shutdown
    [of "MMQ_dtor (MMQ_ctor [] 1)" plain "ByCopy ''late''" "Some ''late''"]
  by (simp add: MMQ_dtor_def MMQ_ctor_def)

subsection \<open>C4: every submission that returns counts once\<close>

text \<open>
  C4: a submission (by copy, by move or in place) that returns normally, with either
  result and under either policy, has incremented \<open>total_messages_\<close> once when it ran
  alone; and among other threads, a statement of a submission changes
  \<open>total_messages_\<close> exactly when it is the one the submission returns with (line 100),
  by one. The counter is a \<open>size_t\<close>: one more than \<open>2^64 - 1\<close> is 0.
\<close>

theorem submission_counts_once:
  "(submit DROP T sub q = Returned r q' \<longrightarrow> total_messages q' = total_messages q + 1)
   \<and> (producer_step DROP p q0 = Returned p' q1 \<longrightarrow>
        total_messages q1 = (if p' = IDLE then total_messages q0 + 1 else total_messages q0))"
proof (intro conjI impI)
  assume "submit DROP T sub q = Returned r q'"
  from submit_Returned[OF this] show "total_messages q' = total_messages q + 1"
    by (auto simp: count_message_def published_def)
next
  assume "producer_step DROP p q0 = Returned p' q1"
  then show "total_messages q1 = (if p' = IDLE then total_messages q0 + 1 else total_messages q0)"
    by (rule producer_step_counts)
qed

text \<open>
  C4, instances: the first submission to a dropping queue of one entry, which is
  accepted, and the last statement of a submission that was dropped, in a queue whose
  counter is at \<open>2^64 - 1\<close>.
\<close>

theorem submission_counts_once_witness:
  "submit True plain (ByCopy ''M00'') (MMQ_ctor [] 1) =
     Returned True (published ''M00'' (MMQ_ctor [] 1))
   \<and> total_messages (published ''M00'' (MMQ_ctor [] 1)) = 1
   \<and> producer_step True (COUNT False)
       \<lparr>circular_buffer_size = 1,
        circular_buffer = [\<lparr>absolute_index = 7, message_body = ''M07'', status = READY\<rparr>],
        head = 0, total_messages = 18446744073709551615, destructing = False\<rparr> =
       Returned IDLE
       \<lparr>circular_buffer_size = 1,
        circular_buffer = [\<lparr>absolute_index = 7, message_body = ''M07'', status = READY\<rparr>],
        head = 0, total_messages = 0, destructing = False\<rparr>"
proof -
  let ?q0 = "\<lparr>circular_buffer_size = 1,
        circular_buffer = [\<lparr>absolute_index = 7, message_body = ''M07'', status = READY\<rparr>],
        head = 0, total_messages = 18446744073709551615, destructing = False\<rparr>"
  let ?q1 = "\<lparr>circular_buffer_size = 1,
        circular_buffer = [\<lparr>absolute_index = 7, message_body = ''M07'', status = READY\<rparr>],
        head = 0, total_messages = 0, destructing = False\<rparr>"
  have h: "submit True plain (ByCopy ''M00'') (MMQ_ctor [] 1) =
     Returned True (published ''M00'' (MMQ_ctor [] 1))"
    by (rule submit_accepted[OF PushMessageAllocate_fresh]) (simp_all add: plain_def)
  have k: "producer_step True (COUNT False) ?q0 = Returned IDLE ?q1"
    by (simp add: count_message_def)
  from submission_counts_once
    [of True plain "ByCopy ''M00''" "MMQ_ctor [] 1" True "published ''M00'' (MMQ_ctor [] 1)"
      "COUNT False" ?q0 IDLE ?q1] h k
  show ?thesis by (simp add: MMQ_ctor_def)
qed

subsection \<open>C5: the index is the count before the submission's own increment\<close>

text \<open>
  C5 says that an accepted submission stores, as \<open>absolute_index\<close>, the value of
  \<open>total_messages_\<close> from before its own increment, and that the first accepted submission
  on a new queue therefore gets index 0. Line 95 reads the counter outside the mutex,
  after the reservation (line 92), so what another producer counts in between is in
  the index. Here, under the dropping policy with one entry, thread 0 reserves the
  entry, thread 1 is rejected and counts, and thread 0 stores index 1: the first and only
  accepted submission on the new queue is dispatched with index 1. This is the defect of
  C1.
\<close>

theorem first_accepted_submission_indexed_one:
  "map_option sink
     (run True
        [Call 0 (Some ''a00''), Call 1 (Some ''b00''),
         Producer 0,
         Producer 1, Producer 1,
         Producer 0, Producer 0, Producer 0, Producer 0,
         Consumer, Consumer]
        (start [] 1))
   = Some [(''a00'', 1, 2)]
   \<and> map_option returned
     (run True
        [Call 0 (Some ''a00''), Call 1 (Some ''b00''),
         Producer 0,
         Producer 1, Producer 1,
         Producer 0, Producer 0, Producer 0, Producer 0,
         Consumer, Consumer]
        (start [] 1))
   = Some [(1, False), (0, True)]"
  by (simp add: evaluate)

text \<open>
  What holds of C5: line 95 stores the value \<open>total_messages_\<close> has at that moment and
  does not change it (the thread's own increment is line 100, later); a submission that
  ran alone and was accepted has stored, in the entry it reserved, the count it found,
  and has incremented the count; and a submission that ran alone on a newly constructed
  queue of at least one entry is accepted with index 0.
\<close>

theorem absolute_index_is_total_before_count:
  "(producer_step DROP (STORE_INDEX index payload) q0 = Returned p q1 \<longrightarrow>
      absolute_index (circular_buffer q1 ! index) = total_messages q0
      \<and> total_messages q1 = total_messages q0)
   \<and> (submit DROP T sub q = Returned True q' \<longrightarrow>
      absolute_index (circular_buffer q' ! head q) = total_messages q
      \<and> total_messages q' = total_messages q + 1)
   \<and> (0 < n \<and> materialize T sub = Some body \<longrightarrow>
      submit DROP T sub (MMQ_ctor dflt n) = Returned True (published body (MMQ_ctor dflt n))
      \<and> absolute_index (circular_buffer (published body (MMQ_ctor dflt n)) ! 0) = 0)"
proof (intro conjI impI)
  assume "producer_step DROP (STORE_INDEX index payload) q0 = Returned p q1"
  from store_index_step[OF this]
  show "absolute_index (circular_buffer q1 ! index) = total_messages q0"
    and "total_messages q1 = total_messages q0"
    by blast+
next
  assume a: "submit DROP T sub q = Returned True q'"
  show "absolute_index (circular_buffer q' ! head q) = total_messages q"
    by (rule accepted_index[OF a])
  from submit_Returned[OF a] show "total_messages q' = total_messages q + 1"
    by (auto simp: published_def)
next
  assume a: "0 < n \<and> materialize T sub = Some body"
  then show "submit DROP T sub (MMQ_ctor dflt n) = Returned True (published body (MMQ_ctor dflt n))"
    by (simp add: fresh_accepts)
  from a show "absolute_index (circular_buffer (published body (MMQ_ctor dflt n)) ! 0) = 0"
    by (simp add: fresh_index)
qed

text \<open>
  Instances: line 95 in a queue that has counted three submissions, and the first
  submission by copy, alone, to a queue of one entry.
\<close>

theorem absolute_index_is_total_before_count_witness:
  "producer_step False (STORE_INDEX 0 (Some ''M03''))
     \<lparr>circular_buffer_size = 1,
      circular_buffer = [\<lparr>absolute_index = 0, message_body = ''M00'', status = BEING_IMPORTED\<rparr>],
      head = 0, total_messages = 3, destructing = False\<rparr>
   = Returned (STORE_BODY 0 (Some ''M03''))
     \<lparr>circular_buffer_size = 1,
      circular_buffer = [\<lparr>absolute_index = 3, message_body = ''M00'', status = BEING_IMPORTED\<rparr>],
      head = 0, total_messages = 3, destructing = False\<rparr>
   \<and> submit False plain (ByCopy ''one'') (MMQ_ctor [] 1) =
       Returned True (published ''one'' (MMQ_ctor [] 1))
   \<and> absolute_index (circular_buffer (published ''one'' (MMQ_ctor [] 1)) ! 0) = 0"
proof -
  let ?q0 = "\<lparr>circular_buffer_size = 1,
      circular_buffer = [\<lparr>absolute_index = 0, message_body = ''M00'', status = BEING_IMPORTED\<rparr>],
      head = 0, total_messages = 3, destructing = False\<rparr>"
  let ?q1 = "\<lparr>circular_buffer_size = 1,
      circular_buffer = [\<lparr>absolute_index = 3, message_body = ''M00'', status = BEING_IMPORTED\<rparr>],
      head = 0, total_messages = 3, destructing = False\<rparr>"
  have m: "(0::nat) < 1 \<and> materialize plain (ByCopy ''one'') = Some ''one''"
    by (simp add: plain_def)
  have s: "producer_step False (STORE_INDEX 0 (Some ''M03'')) ?q0
      = Returned (STORE_BODY 0 (Some ''M03'')) ?q1"
    by (simp add: store_absolute_index_def)
  have f: "submit False plain (ByCopy ''one'') (MMQ_ctor [] 1) =
       Returned True (published ''one'' (MMQ_ctor [] 1))"
    by (rule fresh_accepts) (simp_all add: plain_def)
  from absolute_index_is_total_before_count
    [of False 0 "Some ''M03''" ?q0 "STORE_BODY 0 (Some ''M03'')" ?q1
      plain "ByCopy ''one''" "MMQ_ctor [] 1" "published ''one'' (MMQ_ctor [] 1)"
      1 "''one''" "[]"] m s f
  show ?thesis by blast
qed

subsection \<open>C6: a dropped submission\<close>

text \<open>
  C6: under the dropping policy, with the entry at \<open>head_\<close> not \<open>FREE\<close>, a submission
  returns \<open>false\<close> and changes \<open>total_messages_\<close> only, which it increments (as a
  \<open>size_t\<close>, wrapping at \<open>2^64\<close>): the buffer and \<open>head_\<close> are as before. It does so
  whatever the message type's operations are, also when they would throw: none of them
  is called. Among other threads, its \<open>PushMessageAllocate\<close> changes nothing and line 100
  is the statement that follows.
\<close>

theorem drop_on_overflow_only_counts:
  assumes "head q < length (circular_buffer q)"
    and "status (circular_buffer q ! head q) \<noteq> FREE"
  shows "submit True T sub q = Returned False (q\<lparr>total_messages := total_messages q + 1\<rparr>)
       \<and> producer_step True (ALLOCATE payload) q = Returned (COUNT False) q"
proof -
  from assms have a: "PushMessageAllocate True q = Returned None q"
    by (simp add: PushMessageAllocate_def)
  from submit_rejected[OF a] a show ?thesis by (simp add: count_message_def)
qed

text \<open>
  C6, an instance: a full queue of one entry and a message type whose constructor throws.
\<close>

theorem drop_on_overflow_only_counts_witness:
  "submit True throwing (Emplace ())
     \<lparr>circular_buffer_size = 1,
      circular_buffer = [\<lparr>absolute_index = 0, message_body = ''M00'', status = READY\<rparr>],
      head = 0, total_messages = 1, destructing = False\<rparr>
   = Returned False
     \<lparr>circular_buffer_size = 1,
      circular_buffer = [\<lparr>absolute_index = 0, message_body = ''M00'', status = READY\<rparr>],
      head = 0, total_messages = 2, destructing = False\<rparr>
   \<and> producer_step True (ALLOCATE None)
     \<lparr>circular_buffer_size = 1,
      circular_buffer = [\<lparr>absolute_index = 0, message_body = ''M00'', status = READY\<rparr>],
      head = 0, total_messages = 1, destructing = False\<rparr>
   = Returned (COUNT False)
     \<lparr>circular_buffer_size = 1,
      circular_buffer = [\<lparr>absolute_index = 0, message_body = ''M00'', status = READY\<rparr>],
      head = 0, total_messages = 1, destructing = False\<rparr>"
  using drop_on_overflow_only_counts
    [of "\<lparr>circular_buffer_size = 1,
      circular_buffer = [\<lparr>absolute_index = 0, message_body = ''M00'', status = READY\<rparr>],
      head = 0, total_messages = 1, destructing = False\<rparr>" throwing "Emplace ()" None]
  by simp

subsection \<open>C7: a message that cannot be built\<close>

text \<open>
  C7 says that when building the message fails after the entry was reserved, the
  submission sets the entry \<open>FREE\<close> again and passes the failure on. The code has no
  handler: the exception leaves the submission with the entry \<open>BEING_IMPORTED\<close>.
\<close>

theorem failed_construction_leaves_entry_reserved:
  "submit False throwing (Emplace ()) (MMQ_ctor ''none'' 1)
   = Thrown
     \<lparr>circular_buffer_size = 1,
      circular_buffer = [\<lparr>absolute_index = 0, message_body = ''none'', status = BEING_IMPORTED\<rparr>],
      head = 0, total_messages = 0, destructing = False\<rparr>"
  by (simp add: evaluate EmplaceMessage_def throwing_def)

text \<open>
  C7 as the code has it: when building the message fails after the entry was reserved,
  the failure leaves the submission; the reserved entry is the one at the old \<open>head_\<close>,
  it stays \<open>BEING_IMPORTED\<close>, and \<open>total_messages_\<close> is not incremented.
\<close>

theorem failed_construction_propagates:
  assumes "PushMessageAllocate DROP q = Returned (Some index) q1"
    and "materialize T sub = None"
  shows "submit DROP T sub q = Thrown (abandoned q)
       \<and> index = head q
       \<and> status (circular_buffer (abandoned q) ! index) = BEING_IMPORTED
       \<and> total_messages (abandoned q) = total_messages q"
proof -
  from PushMessageAllocate_Returned[OF assms(1)]
  have i: "index = head q" and h: "head q < length (circular_buffer q)" by auto
  from submit_thrown[OF assms] i h show ?thesis by (simp add: abandoned_def)
qed

text \<open>
  C7, an instance: a dropping queue of two entries and a constructor that throws.
\<close>

theorem failed_construction_propagates_witness:
  "submit True throwing (Emplace ()) (MMQ_ctor ''none'' 2) = Thrown (abandoned (MMQ_ctor ''none'' 2))
   \<and> status (circular_buffer (abandoned (MMQ_ctor ''none'' 2)) ! 0) = BEING_IMPORTED
   \<and> total_messages (abandoned (MMQ_ctor ''none'' 2)) = 0"
proof -
  have a: "PushMessageAllocate True (MMQ_ctor ''none'' 2) =
      Returned (Some 0) (set_status 0 BEING_IMPORTED ((MMQ_ctor ''none'' 2)\<lparr>head := 1 mod 2\<rparr>))"
    by (rule PushMessageAllocate_fresh) simp
  have m: "materialize throwing (Emplace ()) = (None :: string option)"
    by (simp add: throwing_def)
  from failed_construction_propagates[OF a m] show ?thesis by (simp add: MMQ_ctor_def)
qed

subsection \<open>C8: the transitions of an entry's status\<close>

text \<open>
  C8: in every state the threads reach from the constructed queue, whatever a step does
  to an entry's status is one of the four transitions, made by the thread the transition
  belongs to: \<open>FREE\<close> to \<open>BEING_IMPORTED\<close> and \<open>BEING_IMPORTED\<close> to \<open>READY\<close> by a
  producer, \<open>READY\<close> to \<open>BEING_EXPORTED\<close> and \<open>BEING_EXPORTED\<close> to \<open>FREE\<close> by the
  consumer. The buffer keeps its length.
\<close>

theorem entry_status_transitions:
  assumes "run DROP es (start dflt n) = Some s"
    and "after (step DROP e s) = Some s'"
    and "k < length (circular_buffer (queue s))"
  shows "length (circular_buffer (queue s')) = length (circular_buffer (queue s))
       \<and> (status (circular_buffer (queue s') ! k) = status (circular_buffer (queue s) ! k)
          \<or> transition (status (circular_buffer (queue s) ! k))
                        (status (circular_buffer (queue s') ! k))
            \<and> transition_by e (status (circular_buffer (queue s) ! k))
                               (status (circular_buffer (queue s') ! k)))"
proof -
  from run_consistent[OF consistent_start assms(1)] have c: "consistent s" .
  from step_transition[OF c assms(2,3)] transition_by_transition step_queue_shape[OF assms(2)]
  show ?thesis by blast
qed

text \<open>
  C8, an instance: a producer publishes the entry it reserved.
\<close>

theorem entry_status_transitions_witness:
  "status (circular_buffer (queue (the (run False
       [Call 0 (Some ''one''), Producer 0, Producer 0, Producer 0] (start [] 1)))) ! 0)
     = BEING_IMPORTED
   \<and> status (circular_buffer (queue (the (after (step False (Producer 0) (the (run False
       [Call 0 (Some ''one''), Producer 0, Producer 0, Producer 0] (start [] 1))))))) ! 0)
     = READY
   \<and> transition BEING_IMPORTED READY
   \<and> transition_by (Producer 0 :: string event) BEING_IMPORTED READY"
proof -
  let ?s = "the (run False [Call 0 (Some ''one''), Producer 0, Producer 0, Producer 0] (start [] 1))"
  let ?s' = "the (after (step False (Producer 0) ?s))"
  have r: "run False [Call 0 (Some ''one''), Producer 0, Producer 0, Producer 0] (start [] 1) = Some ?s"
    by (simp add: evaluate)
  have a: "after (step False (Producer 0) ?s) = Some ?s'"
    by (simp add: evaluate)
  have k: "0 < length (circular_buffer (queue ?s))"
    by (simp add: evaluate)
  have b: "status (circular_buffer (queue ?s) ! 0) = BEING_IMPORTED"
    by (simp add: evaluate)
  have b': "status (circular_buffer (queue ?s') ! 0) = READY"
    by (simp add: evaluate)
  from entry_status_transitions[OF r a k] b b' show ?thesis by simp
qed

subsection \<open>C9: the three submissions agree\<close>

text \<open>
  C9: when copying the message, moving it and constructing it from the arguments give
  the same payload, \<open>PushMessage\<close> by copy, \<open>PushMessage\<close> by move and
  \<open>EmplaceMessage\<close> have the same outcome from the same queue: the same result and the
  same queue after.
\<close>

theorem submissions_agree:
  assumes "copy message = payload" and "move message = payload"
    and "Option.bind (ctor args) move = payload"
  shows "PushMessage_move DROP move message q = PushMessage_copy DROP copy message q
       \<and> EmplaceMessage DROP ctor move args q = PushMessage_copy DROP copy message q"
  using assms
  by (simp add: PushMessage_copy_def PushMessage_move_def EmplaceMessage_def
      cong: option.case_cong)

text \<open>
  C9, an instance: the message \<open>two\<close> to an empty queue of two entries.
\<close>

theorem submissions_agree_witness:
  "PushMessage_move False Some ''two'' (MMQ_ctor [] 2) = PushMessage_copy False Some ''two'' (MMQ_ctor [] 2)
   \<and> EmplaceMessage False Some Some ''two'' (MMQ_ctor [] 2) = PushMessage_copy False Some ''two'' (MMQ_ctor [] 2)"
  using submissions_agree[of Some "''two''" "Some ''two''" Some Some "''two''" False "MMQ_ctor [] 2"]
  by simp

subsection \<open>C10: the buffer size\<close>

text \<open>
  C10: the constructor takes any \<open>buffer_size\<close> and builds a buffer of that size, also
  of size 0, where the consumer's first access is outside the buffer. With a
  \<open>buffer_size\<close> of at least 1, in every state the threads reach no step accesses the
  buffer outside its bounds or takes a remainder by zero, and \<open>head_\<close> and \<open>tail\<close> are
  below \<open>buffer_size\<close>.
\<close>

theorem buffer_accesses_in_range:
  "circular_buffer_size (MMQ_ctor dflt n) = n
   \<and> length (circular_buffer (MMQ_ctor dflt n)) = n
   \<and> step DROP Consumer (start dflt 0) = Undefined
   \<and> (0 < n \<and> run DROP es (start dflt n) = Some s \<longrightarrow>
        step DROP e s \<noteq> Undefined
        \<and> length (circular_buffer (queue s)) = n
        \<and> circular_buffer_size (queue s) = n
        \<and> head (queue s) < n \<and> tail s < n)"
proof (intro conjI impI)
  show "circular_buffer_size (MMQ_ctor dflt n) = n"
    and "length (circular_buffer (MMQ_ctor dflt n)) = n"
    by (simp_all add: MMQ_ctor_def)
  show "step DROP Consumer (start dflt 0) = Undefined"
    by (simp add: evaluate)
next
  assume a: "0 < n \<and> run DROP es (start dflt n) = Some s"
  then have r: "run DROP es (start dflt n) = Some s" and n: "0 < n" by simp_all
  from run_consistent[OF consistent_start r] have c: "consistent s" .
  from run_queue_shape[OF r]
  have z: "circular_buffer_size (queue s) = n" and l: "length (circular_buffer (queue s)) = n"
    by (simp_all add: start_def MMQ_ctor_def)
  from n z have p: "0 < circular_buffer_size (queue s)" by simp
  show "step DROP e s \<noteq> Undefined" by (rule step_defined[OF c p])
  show "length (circular_buffer (queue s)) = n" by (rule l)
  show "circular_buffer_size (queue s) = n" by (rule z)
  from consistent_bounds[OF c p] z show "head (queue s) < n" and "tail s < n" by simp_all
qed

text \<open>
  C10, an instance: a dropping queue of one entry, reserved by one producer while another
  one submits.
\<close>

theorem buffer_accesses_in_range_witness:
  "step True (Producer 1)
     (the (run True [Call 0 (Some ''one''), Producer 0, Call 1 (Some ''two'')]
        (start [] 1))) \<noteq> Undefined
   \<and> head (queue (the (run True [Call 0 (Some ''one''), Producer 0, Call 1 (Some ''two'')]
        (start [] 1)))) < 1"
proof -
  let ?s = "the (run True [Call 0 (Some ''one''), Producer 0, Call 1 (Some ''two'')] (start [] 1))"
  have r: "(0::nat) < 1 \<and> run True [Call 0 (Some ''one''), Producer 0, Call 1 (Some ''two'')]
      (start [] 1) = Some ?s"
    by (simp add: evaluate)
  from buffer_accesses_in_range[of "[]" 1 True "[Call 0 (Some ''one''), Producer 0, Call 1 (Some ''two'')]" ?s "Producer 1"] r
  show ?thesis by blast
qed

end
